theory Spec2Isabelle
  imports Main "HOL-Library.AList"
begin

section \<open>Python strings, character classes and string methods\<close>

text \<open>
  A Python \<open>str\<close> is modelled as a \<open>string\<close>: each \<open>char\<close> stands for the code point
  of the same number, so the model covers the texts whose code points lie in
  U+0000..U+00FF. On that range the character classes below are the ones CPython uses:
  \<open>Py_UNICODE_ISSPACE\<close> for \<open>\s\<close>, \<open>str.strip\<close> and \<open>str.rstrip\<close>; the decimal digits
  (category Nd) for \<open>\d\<close>; the literal class \<open>[a-zA-Z]\<close>; \<open>Py_UNICODE_ISLINEBREAK\<close> for
  \<open>str.splitlines\<close>.
\<close>

abbreviation newline :: char where "newline \<equiv> CHR 0x0A"
abbreviation backtick :: char where "backtick \<equiv> CHR 0x60"
abbreviation backslash :: char where "backslash \<equiv> CHR 0x5C"

definition is_space :: "char \<Rightarrow> bool" where
  "is_space c = (c \<in> set [CHR 0x09, CHR 0x0A, CHR 0x0B, CHR 0x0C, CHR 0x0D,
                           CHR 0x1C, CHR 0x1D, CHR 0x1E, CHR 0x1F, CHR 0x20,
                           CHR 0x85, CHR 0xA0])"

definition is_digit :: "char \<Rightarrow> bool" where
  "is_digit c = (c \<in> set ''0123456789'')"

definition is_alpha :: "char \<Rightarrow> bool" where
  "is_alpha c = (c \<in> set ''abcdefghijklmnopqrstuvwxyzABCDEFGHIJKLMNOPQRSTUVWXYZ'')"

definition is_linebreak :: "char \<Rightarrow> bool" where
  "is_linebreak c = (c \<in> set [CHR 0x0A, CHR 0x0B, CHR 0x0C, CHR 0x0D,
                               CHR 0x1C, CHR 0x1D, CHR 0x1E, CHR 0x85])"

text \<open>\<open>s.lstrip()\<close>, \<open>s.rstrip()\<close> and \<open>s.strip()\<close> with no argument.\<close>

definition lstrip :: "string \<Rightarrow> string" where
  "lstrip s = dropWhile is_space s"

definition rstrip :: "string \<Rightarrow> string" where
  "rstrip s = rev (dropWhile is_space (rev s))"

definition strip :: "string \<Rightarrow> string" where
  "strip s = rstrip (lstrip s)"

text \<open>
  \<open>s.splitlines()\<close>: the text is cut at every line boundary, the boundaries are dropped,
  \<open>\r\n\<close> is one boundary, and no empty last line is produced when the text ends with a
  boundary. A carriage return directly before a line feed is passed over, and the line
  feed ends the line. A character that is no boundary joins the line that starts right
  after it.
\<close>

fun splitlines :: "string \<Rightarrow> string list" where
  "splitlines [] = []"
| "splitlines (c # cs) =
     (if c = CHR 0x0D \<and> cs \<noteq> [] \<and> hd cs = newline then splitlines cs
      else if is_linebreak c then [] # splitlines cs
      else (case splitlines cs of
              [] \<Rightarrow> [[c]]
            | l # ls \<Rightarrow> (c # l) # ls))"

definition starts_with :: "string \<Rightarrow> string \<Rightarrow> bool" where
  "starts_with p s = (take (length p) s = p)"

section \<open>The snippet extractor (fixed\_response\_code\_snippet.py)\<close>

subsection \<open>The fence pattern\<close>

text \<open>
  \<open>re.findall(r"```(?:cpp|c\+\+)?\s*\n(.*?)```", response_text, re.DOTALL)\<close>.
  The functions follow the backtracking matcher piece by piece; each returns the text
  of group 1 and the text left after the match.

  \<open>lazy_body\<close> is \<open>(.*?)```\<close>: the lazy star first tries to stop (the closing fence must
  follow), and only then takes one more character (any character, under DOTALL).
\<close>

definition fence :: string where
  "fence = [backtick, backtick, backtick]"

fun lazy_body :: "string \<Rightarrow> (string \<times> string) option" where
  "lazy_body [] = None"
| "lazy_body (c # cs) =
     (if starts_with fence (c # cs) then Some ([], drop 3 (c # cs))
      else (case lazy_body cs of
              None \<Rightarrow> None
            | Some (body, rest) \<Rightarrow> Some (c # body, rest)))"

text \<open>
  \<open>ws_nl_body\<close> is \<open>\s*\n(.*?)```\<close>: the greedy star first tries to take the next
  whitespace character; when the rest of the pattern fails after that, it stops here,
  and \<open>\n\<close> must match the character at hand.
\<close>

fun ws_nl_body :: "string \<Rightarrow> (string \<times> string) option" where
  "ws_nl_body [] = None"
| "ws_nl_body (c # cs) =
     (case (if is_space c then ws_nl_body cs else None) of
        Some r \<Rightarrow> Some r
      | None \<Rightarrow> if c = newline then lazy_body cs else None)"

text \<open>
  The optional group \<open>(?:cpp|c\+\+)?\<close> is greedy: the alternatives \<open>cpp\<close>, \<open>c++\<close> and
  then the empty match are tried in this order, each followed by the rest of the pattern.
\<close>

definition after_tag :: "string \<Rightarrow> string \<Rightarrow> (string \<times> string) option" where
  "after_tag tag s = (if starts_with tag s then ws_nl_body (drop (length tag) s) else None)"

definition match_fence :: "string \<Rightarrow> (string \<times> string) option" where
  "match_fence s =
     (if starts_with fence s then
        (let r = drop 3 s in
         case after_tag ''cpp'' r of
           Some m \<Rightarrow> Some m
         | None \<Rightarrow> (case after_tag ''c++'' r of
                       Some m \<Rightarrow> Some m
                     | None \<Rightarrow> ws_nl_body r))
      else None)"

text \<open>
  \<open>re.findall\<close> scans from left to right: where the pattern matches, group 1 is
  collected and the scan goes on right after the match; where it does not, the scan
  moves one character on. A match is never empty, so the scan always advances.
\<close>

function findall_blocks :: "string \<Rightarrow> string list" where
  "findall_blocks [] = []"
| "findall_blocks (c # cs) =
     (case match_fence (c # cs) of
        Some (body, rest) \<Rightarrow> body # findall_blocks rest
      | None \<Rightarrow> findall_blocks cs)"
  by pat_completeness auto
termination
proof (relation "measure length")
  show "wf (measure length)" by simp
next
  fix c :: char and cs x2 body rest
  assume m: "match_fence (c # cs) = Some x2" and x2: "(body, rest) = x2"
  have lazy: "length r < length s" if "lazy_body s = Some (b, r)" for s b r
    using that
    by (induction s arbitrary: b r)
       (auto simp: starts_with_def fence_def split: if_splits option.splits)
  have ws: "length r < length s" if "ws_nl_body s = Some (b, r)" for s b r
    using that
  proof (induction s arbitrary: b r)
    case Nil
    then show ?case by simp
  next
    case (Cons d ds)
    show ?case
    proof (cases "is_space d \<and> ws_nl_body ds \<noteq> None")
      case True
      then obtain b' r' where br: "ws_nl_body ds = Some (b', r')" by auto
      with True Cons.prems have "b' = b" "r' = r" by auto
      with br Cons.IH show ?thesis by fastforce
    next
      case False
      with Cons.prems have "lazy_body ds = Some (b, r)"
        by (auto split: if_splits option.splits)
      then show ?thesis using lazy by fastforce
    qed
  qed
  from m x2 have "length rest < length (c # cs)"
    by (auto simp: match_fence_def after_tag_def Let_def
             split: if_splits option.splits dest!: ws)
  then show "(rest, c # cs) \<in> measure length" by simp
next
  fix c :: char and cs
  show "(cs, c # cs) \<in> measure length" by simp
qed

subsection \<open>The line pattern\<close>

text \<open>
  \<open>re.match(r"^(\d+[a-zA-Z]*):(.*)$", line)\<close>, returning groups 1 and 2. The greedy
  \<open>\d+\<close> and \<open>[a-zA-Z]*\<close> take the longest runs of digits and of letters; giving a
  character back never helps, since the colon would then face a digit or a letter. The
  dot does not match a line feed, and \<open>$\<close> matches at the end of the text or before a
  line feed that ends it.
\<close>

definition match_line :: "string \<Rightarrow> (string \<times> string) option" where
  "match_line line =
     (let ds = takeWhile is_digit line; r1 = dropWhile is_digit line;
          ls = takeWhile is_alpha r1; r2 = dropWhile is_alpha r1
      in if ds = [] then None
         else (case r2 of
                 [] \<Rightarrow> None
               | c # r3 \<Rightarrow>
                   if c \<noteq> CHR '':'' then None
                   else (let code = takeWhile (\<lambda>x. x \<noteq> newline) r3;
                             r4 = dropWhile (\<lambda>x. x \<noteq> newline) r3
                         in if r4 = [] \<or> r4 = [newline] then Some (ds @ ls, code)
                            else None)))"

subsection \<open>The extraction loop\<close>

text \<open>
  The dictionary \<open>all_lines\<close> is an association list in insertion order; an assignment
  to a key that is present replaces its value in place, as a Python \<open>dict\<close> does. The
  lines printed to \<open>sys.stderr\<close> are collected in a second list, so the function returns
  the dictionary together with what it wrote to the error channel.
\<close>

datatype diag = Skipping string

type_synonym snippets = "(string \<times> string) list"

definition process_line :: "snippets \<times> diag list \<Rightarrow> string \<Rightarrow> snippets \<times> diag list" where
  "process_line st line =
     (case match_line line of
        Some (g1, g2) \<Rightarrow> (AList.update (strip g1) (rstrip g2) (fst st), snd st)
      | None \<Rightarrow> (fst st, snd st @ [Skipping line]))"

definition block_lines :: "string \<Rightarrow> string list" where
  "block_lines block = splitlines (strip block)"

definition process_block :: "snippets \<times> diag list \<Rightarrow> string \<Rightarrow> snippets \<times> diag list" where
  "process_block st block = foldl process_line st (block_lines block)"

definition extract_snippets_from_response :: "string \<Rightarrow> snippets \<times> diag list" where
  "extract_snippets_from_response response_text =
     foldl process_block ([], []) (findall_blocks response_text)"

section \<open>Text files as the line-numbering tools read them\<close>

text \<open>
  A file is modelled by its decoded text. A file opened for reading in text mode
  translates \<open>\r\n\<close> and a lone \<open>\r\<close> to \<open>\n\<close> (universal newlines), and iterating
  over it yields the lines one by one, each with its line feed; a last line without a
  line feed is yielded as it is. Text written to a file opened with \<open>'w'\<close> is stored as
  it is (the line separator of the platform is taken to be \<open>\n\<close>).
\<close>

fun universal_newlines :: "string \<Rightarrow> string" where
  "universal_newlines [] = []"
| "universal_newlines (c # cs) =
     (if c = CHR 0x0D then
        (if cs \<noteq> [] \<and> hd cs = newline then universal_newlines cs
         else newline # universal_newlines cs)
      else c # universal_newlines cs)"

fun keepends_lines :: "string \<Rightarrow> string list" where
  "keepends_lines [] = []"
| "keepends_lines (c # cs) =
     (if c = newline then [c] # keepends_lines cs
      else (case keepends_lines cs of
              [] \<Rightarrow> [[c]]
            | l # ls \<Rightarrow> (c # l) # ls))"

definition file_lines :: "string \<Rightarrow> string list" where
  "file_lines content = keepends_lines (universal_newlines content)"

section \<open>The adder (numbering.py)\<close>

text \<open>\<open>str(i)\<close> for a natural number: its decimal digits, without leading zeros.\<close>

definition digit_char :: "nat \<Rightarrow> char" where
  "digit_char d = ''0123456789'' ! (d mod 10)"

fun str_nat :: "nat \<Rightarrow> string" where
  "str_nat n = (if n < 10 then [digit_char n] else str_nat (n div 10) @ [digit_char (n mod 10)])"

declare str_nat.simps [simp del]



section \<open>The stripper (denumbering.py)\<close>

text \<open>
  \<open>re.sub(r'^\d+[a-zA-Z]*:\s?', '', line)\<close>. Without the MULTILINE flag \<open>^\<close> matches at
  the start of the line only, so at most one match is replaced. The greedy \<open>\s?\<close> takes
  the character after the colon when it is a whitespace character, whichever it is.
\<close>

definition sub_line_number :: "string \<Rightarrow> string" where
  "sub_line_number line =
     (let r1 = dropWhile is_digit line; r2 = dropWhile is_alpha r1
      in if takeWhile is_digit line = [] then line
         else (case r2 of
                 [] \<Rightarrow> line
               | c # r3 \<Rightarrow>
                   if c \<noteq> CHR '':'' then line
                   else (case r3 of
                           [] \<Rightarrow> []
                         | d # r4 \<Rightarrow> if is_space d then r4 else r3)))"

definition remove_line_numbers :: "string \<Rightarrow> string" where
  "remove_line_numbers content = concat (map sub_line_number (file_lines content))"

section \<open>The violation extractor (excel\_utils.py)\<close>

text \<open>
  A cell of the data frame is a text, a number or the missing value. \<open>str(text)\<close> of a
  cell is its text, the decimal numeral of a number, and \<open>nan\<close> for the missing value.
\<close>

datatype cell = Str string | Num int | NaN

definition py_str :: "cell \<Rightarrow> string" where
  "py_str x = (case x of
                 Str s \<Rightarrow> s
               | Num n \<Rightarrow> (if n < 0 then ''-'' @ str_nat (nat (- n)) else str_nat (nat n))
               | NaN \<Rightarrow> ''nan'')"

datatype py_error = ReadError string | KeyError string | ValueError

text \<open>
  \<open>int(s)\<close> on a text of decimal digits. CPython refuses a text of more than 4300
  digits with a \<open>ValueError\<close> (the default of \<open>sys.set_int_max_str_digits\<close>).
\<close>

definition digit_val :: "char \<Rightarrow> nat" where
  "digit_val c = length (takeWhile (\<lambda>d. d \<noteq> c) ''0123456789'')"

definition nat_of_digits :: "string \<Rightarrow> nat" where
  "nat_of_digits ds = foldl (\<lambda>a c. 10 * a + digit_val c) 0 ds"

definition py_int :: "string \<Rightarrow> py_error + int" where
  "py_int ds = (if length ds > 4300 then Inl ValueError else Inr (int (nat_of_digits ds)))"

text \<open>
  \<open>re.match(r"\[Line (\d+)\]\s*(.+)", str(text))\<close>, returning groups 1 and 2.
  \<open>ws_msg\<close> is \<open>\s*(.+)\<close>: the greedy star first tries to take the next whitespace
  character; when \<open>(.+)\<close> fails after that, the star stops here and \<open>(.+)\<close> takes the
  characters up to the first line feed, of which there must be one at least.
\<close>

fun ws_msg :: "string \<Rightarrow> string option" where
  "ws_msg [] = None"
| "ws_msg (c # cs) =
     (case (if is_space c then ws_msg cs else None) of
        Some m \<Rightarrow> Some m
      | None \<Rightarrow> if c \<noteq> newline then Some (takeWhile (\<lambda>x. x \<noteq> newline) (c # cs)) else None)"

definition match_line_warning :: "string \<Rightarrow> (string \<times> string) option" where
  "match_line_warning s =
     (if starts_with ''[Line '' s then
        (let r = drop 6 s; ds = takeWhile is_digit r; r1 = dropWhile is_digit r
         in if ds = [] then None
            else (case r1 of
                    [] \<Rightarrow> None
                  | c # r2 \<Rightarrow>
                      if c \<noteq> CHR '']'' then None
                      else (case ws_msg r2 of
                              None \<Rightarrow> None
                            | Some m \<Rightarrow> Some (ds, m))))
      else None)"

text \<open>
  \<open>parse_line_warning\<close>: \<open>(int(match.group(1)), match.group(2)) if match else (None, text)\<close>.
\<close>

definition parse_line_warning :: "cell \<Rightarrow> py_error + (int option \<times> cell)" where
  "parse_line_warning text =
     (case match_line_warning (py_str text) of
        Some (g1, g2) \<Rightarrow> (case py_int g1 of
                           Inl e \<Rightarrow> Inl e
                         | Inr n \<Rightarrow> Inr (Some n, Str g2))
      | None \<Rightarrow> Inr (None, text))"

text \<open>
  The data frame that \<open>pd.read_excel\<close> returns: the column names and the rows, each row
  with one cell per column. The Pandas operations are modelled row by row, and the
  \<open>Line\<close> column keeps the integers that \<open>parse_line_warning\<close> returned. A column that
  the code reads by name and the frame does not have is a \<open>KeyError\<close>; a row that is too
  short to hold the cell of a column reads as that column missing.
\<close>

record dataframe =
  columns :: "string list"
  rows :: "cell list list"

record violation =
  File :: cell
  Path :: cell
  Line :: "int option"
  Warning :: cell
  Level :: cell
  Misra :: cell

definition cell_of :: "dataframe \<Rightarrow> cell list \<Rightarrow> string \<Rightarrow> cell option" where
  "cell_of df row name = map_of (zip (columns df) row) name"

text \<open>\<open>df['Line and Warning'].apply(...)\<close>: the first exception ends the whole call.\<close>

fun parse_all :: "cell option list \<Rightarrow> py_error + (int option \<times> cell) list" where
  "parse_all [] = Inr []"
| "parse_all (x # xs) =
     (case x of
        None \<Rightarrow> Inl (KeyError ''Line and Warning'')
      | Some text \<Rightarrow>
          (case parse_line_warning text of
             Inl e \<Rightarrow> Inl e
           | Inr p \<Rightarrow> (case parse_all xs of
                         Inl e \<Rightarrow> Inl e
                       | Inr ps \<Rightarrow> Inr (p # ps))))"

text \<open>The dictionary built for one row of \<open>filtered_df\<close>.\<close>

definition build_violation ::
  "dataframe \<Rightarrow> cell list \<times> (int option \<times> cell) \<Rightarrow> py_error + violation" where
  "build_violation df rp =
     (case cell_of df (fst rp) ''File'' of
        None \<Rightarrow> Inl (KeyError ''File'')
      | Some file \<Rightarrow>
          (case cell_of df (fst rp) ''Path'' of
             None \<Rightarrow> Inl (KeyError ''Path'')
           | Some path \<Rightarrow>
               (case cell_of df (fst rp) ''Misra'' of
                  None \<Rightarrow> Inl (KeyError ''Misra'')
                | Some misra \<Rightarrow>
                    Inr \<lparr>File = file, Path = path, Line = fst (snd rp),
                         Warning = snd (snd rp),
                         Level = (case cell_of df (fst rp) ''Level'' of
                                    Some level \<Rightarrow> level
                                  | None \<Rightarrow> Str []),
                         Misra = misra\<rparr>)))"

fun build_all ::
  "dataframe \<Rightarrow> (cell list \<times> (int option \<times> cell)) list \<Rightarrow> py_error + violation list" where
  "build_all df [] = Inr []"
| "build_all df (rp # rps) =
     (case build_violation df rp of
        Inl e \<Rightarrow> Inl e
      | Inr v \<Rightarrow> (case build_all df rps of
                    Inl e \<Rightarrow> Inl e
                  | Inr vs \<Rightarrow> Inr (v # vs)))"

text \<open>
  The body of the \<open>try\<close> block. Its first argument is the outcome of \<open>pd.read_excel\<close>:
  the exception it raised, or the data frame of the first six columns.
\<close>

definition violations_body :: "py_error + dataframe \<Rightarrow> string \<Rightarrow> py_error + violation list" where
  "violations_body read_excel target_file =
     (case read_excel of
        Inl e \<Rightarrow> Inl e
      | Inr df \<Rightarrow>
          if ''Line and Warning'' \<notin> set (columns df) then Inl (KeyError ''Line and Warning'')
          else (case parse_all (map (\<lambda>row. cell_of df row ''Line and Warning'') (rows df)) of
                  Inl e \<Rightarrow> Inl e
                | Inr parsed \<Rightarrow>
                    if ''File'' \<notin> set (columns df) then Inl (KeyError ''File'')
                    else (let filtered_df =
                                filter (\<lambda>rp. cell_of df (fst rp) ''File'' = Some (Str target_file))
                                       (zip (rows df) parsed)
                          in if filtered_df = [] then Inr [] else build_all df filtered_df)))"

text \<open>
  \<open>except Exception as e\<close>: the exception is printed to \<open>sys.stderr\<close> and the empty list
  is returned. The function returns the list together with what it wrote to the error
  channel.
\<close>

definition extract_violations_for_file ::
  "py_error + dataframe \<Rightarrow> string \<Rightarrow> violation list \<times> py_error list" where
  "extract_violations_for_file read_excel target_file =
     (case violations_body read_excel target_file of
        Inl e \<Rightarrow> ([], [e])
      | Inr violations \<Rightarrow> (violations, []))"

section \<open>Notions used to state the properties\<close>

text \<open>
  The lines the snippet extractor examines, block after block, in the order of the loop;
  the entry a line contributes to the dictionary when it matches the line pattern; the
  entries of a response in the order in which they are written.
\<close>

definition examined_lines :: "string \<Rightarrow> string list" where
  "examined_lines text = concat (map block_lines (findall_blocks text))"

definition entry_of :: "string \<Rightarrow> (string \<times> string) option" where
  "entry_of line =
     (case match_line line of
        Some (g1, g2) \<Rightarrow> Some (strip g1, rstrip g2)
      | None \<Rightarrow> None)"

definition entries :: "string \<Rightarrow> (string \<times> string) list" where
  "entries text = List.map_filter entry_of (examined_lines text)"

text \<open>The value of the last entry written under a label, if there is one.\<close>

definition latest :: "string \<Rightarrow> (string \<times> string) list \<Rightarrow> string option" where
  "latest lab es =
     (case filter (\<lambda>e. fst e = lab) es of
        [] \<Rightarrow> None
      | e # es' \<Rightarrow> Some (snd (last (e # es'))))"

text \<open>A line-number label: one or more digits, then letters only.\<close>

definition is_label :: "string \<Rightarrow> bool" where
  "is_label lab = (takeWhile is_digit lab \<noteq> [] \<and> list_all is_alpha (dropWhile is_digit lab))"

text \<open>A match result whose remaining text is extended by the text that follows.\<close>

abbreviation with_rest :: "string \<Rightarrow> (string \<times> string) option \<Rightarrow> (string \<times> string) option" where
  "with_rest post m \<equiv> map_option (\<lambda>br. (fst br, snd br @ post)) m"

text \<open>
  The lines of a block as the specification words them: the block is split at its line
  boundaries and the blank lines at both ends are dropped (which is the same as dropping
  them from the block as a whole before splitting); the lines that remain are left as
  they are. A line is blank when it holds whitespace only.
\<close>

definition is_blank :: "string \<Rightarrow> bool" where
  "is_blank l = list_all is_space l"

fun drop_trailing_blank :: "string list \<Rightarrow> string list" where
  "drop_trailing_blank [] = []"
| "drop_trailing_blank (l # ls) =
     (if drop_trailing_blank ls = [] \<and> is_blank l then [] else l # drop_trailing_blank ls)"

definition spec_block_lines :: "string \<Rightarrow> string list" where
  "spec_block_lines block = dropWhile is_blank (drop_trailing_blank (splitlines block))"

text \<open>A function applied to the first line only, and to the last line only.\<close>

fun on_first :: "(string \<Rightarrow> string) \<Rightarrow> string list \<Rightarrow> string list" where
  "on_first f [] = []"
| "on_first f (l # ls) = f l # ls"

fun on_last :: "(string \<Rightarrow> string) \<Rightarrow> string list \<Rightarrow> string list" where
  "on_last f [] = []"
| "on_last f [l] = [f l]"
| "on_last f (l # m # ls) = l # on_last f (m # ls)"


text \<open>
  Fences in a text. A text contains a fence when three backticks in a row stand
  somewhere in it. An opener is what the fence pattern accepts between the three
  backticks and the block: the optional tag \<open>cpp\<close> or \<open>c++\<close>, then one or more whitespace
  characters, the last of them a line feed.
\<close>

fun contains_fence :: "string \<Rightarrow> bool" where
  "contains_fence [] = False"
| "contains_fence (c # cs) = (starts_with fence (c # cs) \<or> contains_fence cs)"

definition is_opener :: "string \<Rightarrow> bool" where
  "is_opener opener =
     (\<exists>tag \<in> set [''cpp'', ''c++'', []].
        starts_with tag opener \<and> drop (length tag) opener \<noteq> [] \<and> last opener = newline \<and>
        list_all is_space (drop (length tag) opener))"

text \<open>
  The fenced code blocks of a text as the specification words them: regions delimited
  by triple-backtick markers. The text is cut at every fence, from left to right; the
  fences are paired in the order in which they stand, the first opens a block and the
  next closes it. The pieces at the even positions lie outside every fenced block, the
  pieces at the odd positions that a fence follows are the fenced blocks (each with the
  rest of its opening line in front); a last fence that is never closed opens no block.
  A fenced block opens the way the fence pattern expects when one of its prefixes is an
  opener.
\<close>

fun split_fences :: "string \<Rightarrow> string list" where
  "split_fences [] = [[]]"
| "split_fences (c # cs) =
     (if starts_with fence (c # cs) then [] # split_fences (drop 3 (c # cs))
      else (case split_fences cs of
              [] \<Rightarrow> [[c]]
            | s # ss \<Rightarrow> (c # s) # ss))"

fun outside_of :: "string list \<Rightarrow> string list" where
  "outside_of [] = []"
| "outside_of [x] = [x]"
| "outside_of (x # y # zs) = x # outside_of zs"

fun inside_of :: "string list \<Rightarrow> string list" where
  "inside_of (x # y # z # zs) = y # inside_of (z # zs)"
| "inside_of zs = []"

definition outside_fences :: "string \<Rightarrow> string list" where
  "outside_fences text = outside_of (split_fences text)"

definition fenced_blocks :: "string \<Rightarrow> string list" where
  "fenced_blocks text = inside_of (split_fences text)"

definition opens_block :: "string \<Rightarrow> bool" where
  "opens_block s = (\<exists>n \<in> set [0..<Suc (length s)]. is_opener (take n s))"

text \<open>
  A response for the examples: a fenced block tagged \<open>js\<close>, a line \<open>1: x\<close> outside every
  fenced block, and a fenced block tagged \<open>cpp\<close> with the line \<open>2: y\<close>.
\<close>

definition foreign_fence_response :: string where
  "foreign_fence_response =
     fence @ ''js'' @ [newline] @ ''f();'' @ [newline] @ fence @ [newline]
     @ ''1: x'' @ [newline]
     @ fence @ ''cpp'' @ [newline] @ ''2: y'' @ [newline] @ fence"

text \<open>
  Two data frames for the examples: a sheet with all five named columns, and a sheet
  that lacks the \<open>Path\<close> column.
\<close>

definition example_sheet :: dataframe where
  "example_sheet =
     \<lparr>columns = [''File'', ''Path'', ''Line and Warning'', ''Level'', ''Misra''],
      rows = [[Str ''a.cpp'', Str ''src/a.cpp'', Str ''[Line 42] unused variable'',
               Str ''Warning'', Str ''Rule 2.2''],
              [Str ''b.cpp'', Str ''src/b.cpp'', Str ''see note'',
               Str ''Info'', Str ''Rule 8.4'']]\<rparr>"

definition sheet_without_path :: dataframe where
  "sheet_without_path =
     \<lparr>columns = [''File'', ''Line and Warning'', ''Misra''],
      rows = [[Str ''a.cpp'', Str ''[Line 42] unused variable'', Str ''Rule 2.2'']]\<rparr>"

section \<open>Lemmas about the snippet extractor\<close>

subsection \<open>Character classes and the line pattern\<close>

lemma digit_not_space: "is_digit c \<Longrightarrow> \<not> is_space c"
  by (auto simp: is_digit_def is_space_def)

lemma alpha_not_space: "is_alpha c \<Longrightarrow> \<not> is_space c"
  by (auto simp: is_alpha_def is_space_def)

lemma digit_not_alpha: "is_digit c \<Longrightarrow> \<not> is_alpha c"
  by (auto simp: is_digit_def is_alpha_def)

lemma dropWhile_none: "(\<And>c. c \<in> set xs \<Longrightarrow> \<not> P c) \<Longrightarrow> dropWhile P xs = xs"
  by (cases xs) auto

lemma strip_no_space:
  assumes "\<And>c. c \<in> set s \<Longrightarrow> \<not> is_space c"
  shows "strip s = s"
proof -
  have 1: "dropWhile is_space s = s" using assms by (rule dropWhile_none)
  have 2: "dropWhile is_space (rev s) = rev s" using assms by (intro dropWhile_none) simp
  show ?thesis by (simp add: strip_def lstrip_def rstrip_def 1 2)
qed

lemma span_append:
  assumes "\<And>x. x \<in> set xs \<Longrightarrow> P x" and "ys = [] \<or> \<not> P (hd ys)"
  shows "takeWhile P (xs @ ys) = xs" and "dropWhile P (xs @ ys) = ys"
proof -
  have t: "takeWhile P ys = []" and d: "dropWhile P ys = ys"
    using assms(2) by (cases ys; auto)+
  show "takeWhile P (xs @ ys) = xs" using assms(1) by (simp add: takeWhile_append2 t)
  show "dropWhile P (xs @ ys) = ys" using assms(1) by (simp add: dropWhile_append2 d)
qed

lemma match_line_parts:
  assumes "match_line line = Some (lab, code)"
  shows "\<exists>tl. line = lab @ CHR '':'' # code @ tl \<and> (tl = [] \<or> tl = [newline])
              \<and> newline \<notin> set code
              \<and> lab = takeWhile is_digit line @ takeWhile is_alpha (dropWhile is_digit line)
              \<and> takeWhile is_digit line \<noteq> []"
proof -
  let ?ds = "takeWhile is_digit line" and ?r1 = "dropWhile is_digit line"
  let ?ls = "takeWhile is_alpha ?r1" and ?r2 = "dropWhile is_alpha ?r1"
  from assms obtain r3 where r2: "?r2 = CHR '':'' # r3" and ds: "?ds \<noteq> []"
    and lab: "lab = ?ds @ ?ls"
    and code: "code = takeWhile (\<lambda>x. x \<noteq> newline) r3"
    and r4: "dropWhile (\<lambda>x. x \<noteq> newline) r3 = [] \<or> dropWhile (\<lambda>x. x \<noteq> newline) r3 = [newline]"
    by (auto simp: match_line_def Let_def split: if_splits list.splits)
  have "line = ?ds @ ?ls @ ?r2" by (metis takeWhile_dropWhile_id)
  also have "\<dots> = lab @ CHR '':'' # (code @ dropWhile (\<lambda>x. x \<noteq> newline) r3)"
    by (simp add: lab r2 code)
  finally have l: "line = lab @ CHR '':'' # code @ dropWhile (\<lambda>x. x \<noteq> newline) r3" by simp
  have "newline \<notin> set code" unfolding code by (auto dest: set_takeWhileD)
  with l r4 lab ds show ?thesis by blast
qed

lemma match_line_label_strip:
  assumes "match_line line = Some (lab, code)"
  shows "strip lab = lab"
proof -
  from match_line_parts[OF assms]
  have lab: "lab = takeWhile is_digit line @ takeWhile is_alpha (dropWhile is_digit line)" by blast
  have "\<not> is_space c" if "c \<in> set lab" for c
    using that unfolding lab by (auto dest!: set_takeWhileD dest: digit_not_space alpha_not_space)
  then show ?thesis by (rule strip_no_space)
qed

lemma match_line_whole:
  assumes "match_line line = Some (lab, code)" and "newline \<notin> set line"
  shows "line = lab @ '':'' @ code"
  using match_line_parts[OF assms(1)] assms(2) by auto

lemma match_line_conforming:
  assumes "is_label lab" and "newline \<notin> set code"
  shows "match_line (lab @ '':'' @ code) = Some (lab, code)"
proof -
  let ?ds = "takeWhile is_digit lab" and ?ls = "dropWhile is_digit lab"
  let ?line = "lab @ '':'' @ code"
  from assms(1) have ds: "?ds \<noteq> []" and ls: "\<And>x. x \<in> set ?ls \<Longrightarrow> is_alpha x"
    by (auto simp: is_label_def list_all_iff)
  have lab: "lab = ?ds @ ?ls" by simp
  have line: "?line = ?ds @ (?ls @ CHR '':'' # code)" by simp
  have nd: "\<not> is_digit (hd (?ls @ CHR '':'' # code))"
  proof (cases ?ls)
    case Nil
    have "\<not> is_digit (CHR '':'')" by (simp add: is_digit_def)
    then show ?thesis unfolding Nil by simp
  next
    case (Cons a as)
    then have "is_alpha a" using ls by simp
    then show ?thesis using Cons digit_not_alpha by auto
  qed
  have tw: "takeWhile is_digit ?line = ?ds"
    by (subst line, rule span_append(1)) (auto dest: set_takeWhileD simp: nd)
  have dw: "dropWhile is_digit ?line = ?ls @ CHR '':'' # code"
    by (subst line, rule span_append(2)) (auto dest: set_takeWhileD simp: nd)
  have na: "CHR '':'' # code = [] \<or> \<not> is_alpha (hd (CHR '':'' # code))"
    by (simp add: is_alpha_def)
  have ta: "takeWhile is_alpha (?ls @ CHR '':'' # code) = ?ls"
    using ls na by (rule span_append(1))
  have da: "dropWhile is_alpha (?ls @ CHR '':'' # code) = CHR '':'' # code"
    using ls na by (rule span_append(2))
  have tc: "takeWhile (\<lambda>x. x \<noteq> newline) code = code"
    using assms(2) by (auto simp: takeWhile_eq_all_conv)
  have dc: "dropWhile (\<lambda>x. x \<noteq> newline) code = []"
    using assms(2) by auto
  show ?thesis
    unfolding match_line_def Let_def tw dw ta da
    using ds assms(2) by (simp add: tc dc)
qed

lemma rstrip_last_not_space:
  assumes "code \<noteq> []" and "\<not> is_space (last code)"
  shows "rstrip code = code"
proof -
  from assms have "dropWhile is_space (rev code) = rev code"
    by (cases "rev code") (auto simp: last_rev[symmetric] hd_rev)
  then show ?thesis by (simp add: rstrip_def)
qed

lemma process_line_match:
  assumes "match_line line = Some (lab, code)"
  shows "process_line st line = (AList.update lab (rstrip code) (fst st), snd st)"
  using assms match_line_label_strip[OF assms] by (simp add: process_line_def)

subsection \<open>The extraction loop as a fold over the entries\<close>

lemma foldl_process_line:
  "foldl process_line st ls =
     (foldl (\<lambda>al e. AList.update (fst e) (snd e) al) (fst st) (List.map_filter entry_of ls),
      snd st @ map Skipping (filter (\<lambda>l. match_line l = None) ls))"
proof (induction ls arbitrary: st)
  case Nil
  then show ?case by (simp add: List.map_filter_simps)
next
  case (Cons l ls)
  show ?case
  proof (cases "match_line l")
    case None
    then have "process_line st l = (fst st, snd st @ [Skipping l])"
      and "entry_of l = None"
      by (simp_all add: process_line_def entry_of_def)
    with None show ?thesis
      by (simp add: Cons.IH List.map_filter_simps)
  next
    case (Some p)
    then obtain g1 g2 where m: "match_line l = Some (g1, g2)" by (cases p) auto
    then have "process_line st l = (AList.update (strip g1) (rstrip g2) (fst st), snd st)"
      and "entry_of l = Some (strip g1, rstrip g2)"
      by (simp_all add: process_line_def entry_of_def)
    with m show ?thesis
      by (simp add: Cons.IH List.map_filter_simps)
  qed
qed

lemma foldl_process_block:
  "foldl process_block st bs = foldl process_line st (concat (map block_lines bs))"
  by (induction bs arbitrary: st) (simp_all add: process_block_def)

lemma extract_as_fold:
  "extract_snippets_from_response text =
     (foldl (\<lambda>al e. AList.update (fst e) (snd e) al) [] (entries text),
      map Skipping (filter (\<lambda>l. match_line l = None) (examined_lines text)))"
  by (simp add: extract_snippets_from_response_def foldl_process_block foldl_process_line
                entries_def examined_lines_def)

lemma map_of_foldl_update:
  "map_of (foldl (\<lambda>al e. AList.update (fst e) (snd e) al) al es) = map_of (rev es @ al)"
proof (induction es arbitrary: al)
  case Nil
  then show ?case by simp
next
  case (Cons e es)
  have "map_of (foldl (\<lambda>al e. AList.update (fst e) (snd e) al) (AList.update (fst e) (snd e) al) es)
        = map_of (rev es @ AList.update (fst e) (snd e) al)"
    by (rule Cons.IH)
  also have "\<dots> = map_of (rev es @ e # al)"
    by (simp add: map_of_append update_conv' fun_eq_iff map_add_def split: option.splits)
  finally show ?case by simp
qed

lemma latest_snoc:
  "latest lab (es @ [e]) = (if fst e = lab then Some (snd e) else latest lab es)"
proof (cases "fst e = lab")
  case True
  then have f: "filter (\<lambda>e. fst e = lab) (es @ [e]) = filter (\<lambda>e. fst e = lab) es @ [e]"
    by simp
  obtain x xs where x: "filter (\<lambda>e. fst e = lab) es @ [e] = x # xs"
    by (cases "filter (\<lambda>e. fst e = lab) es @ [e]") auto
  then have "last (x # xs) = e" by (metis last_snoc)
  with True f x show ?thesis by (simp add: latest_def)
next
  case False
  then show ?thesis by (simp add: latest_def)
qed

lemma map_of_rev_latest: "map_of (rev es) lab = latest lab es"
proof (induction es rule: rev_induct)
  case Nil
  then show ?case by (simp add: latest_def)
next
  case (snoc e es)
  then show ?case by (cases e) (simp add: latest_snoc)
qed

lemma keys_foldl_update:
  "fst ` set (foldl (\<lambda>al e. AList.update (fst e) (snd e) al) al es) = fst ` set al \<union> fst ` set es"
proof -
  have "fst ` set (foldl (\<lambda>al e. AList.update (fst e) (snd e) al) al es)
        = dom (map_of (foldl (\<lambda>al e. AList.update (fst e) (snd e) al) al es))"
    by (simp add: dom_map_of_conv_image_fst)
  also have "\<dots> = dom (map_of (rev es @ al))" by (simp only: map_of_foldl_update)
  also have "\<dots> = fst ` set al \<union> fst ` set es"
    by (simp only: dom_map_of_conv_image_fst) auto
  finally show ?thesis .
qed

subsection \<open>Fences, and text without a fence around a response\<close>

lemma lazy_body_None_iff: "lazy_body s = None \<longleftrightarrow> \<not> contains_fence s"
  by (induction s) (auto split: option.splits)

lemma starts_with_length:
  assumes "starts_with p s"
  shows "length p \<le> length s"
proof -
  from assms have "length (take (length p) s) = length p" by (simp add: starts_with_def)
  then show ?thesis by simp
qed

lemma starts_with_append_long:
  "length p \<le> length s \<Longrightarrow> starts_with p (s @ post) = starts_with p s"
  by (simp add: starts_with_def)

lemma starts_with_split: "starts_with p s \<Longrightarrow> s = p @ drop (length p) s"
proof -
  assume "starts_with p s"
  then have "take (length p) s = p" by (simp add: starts_with_def)
  then have "take (length p) s @ drop (length p) s = p @ drop (length p) s" by simp
  then show ?thesis by simp
qed

lemma starts_with_nth:
  assumes "starts_with p s" and "i < length p"
  shows "s ! i = p ! i"
proof -
  from assms(1) have "take (length p) s = p" by (simp add: starts_with_def)
  then have "p ! i = take (length p) s ! i" by simp
  also have "\<dots> = s ! i" using assms(2) by (rule nth_take)
  finally show ?thesis by simp
qed

lemma fence_nth: "i < length fence \<Longrightarrow> fence ! i = backtick"
  by (cases i; cases "i - 1"; cases "i - 2") (auto simp: fence_def)

lemma starts_with_fence_append:
  assumes "post = [] \<or> hd post \<noteq> backtick"
  shows "starts_with fence (s @ post) = starts_with fence s"
proof (cases "length fence \<le> length s")
  case True
  then show ?thesis by (rule starts_with_append_long)
next
  case False
  then have short: "length s < length fence" by simp
  then have n: "\<not> starts_with fence s" using starts_with_length[of fence s] by auto
  have "\<not> starts_with fence (s @ post)"
  proof
    assume a: "starts_with fence (s @ post)"
    have "length fence \<le> length (s @ post)" using a by (rule starts_with_length)
    with short have ne: "post \<noteq> []" by auto
    have "(s @ post) ! length s = fence ! length s" using a short by (rule starts_with_nth)
    then have "(s @ post) ! length s = backtick" using short by (simp only: fence_nth)
    moreover have "(s @ post) ! length s = hd post" using ne by (simp add: nth_append hd_conv_nth)
    ultimately show False using assms ne by simp
  qed
  with n show ?thesis by simp
qed

lemma no_fence_at_front:
  assumes "\<not> contains_fence p" and "p \<noteq> []" and "last p \<noteq> backtick"
  shows "\<not> starts_with fence (p @ t)"
proof (cases "length fence \<le> length p")
  case True
  then have "starts_with fence (p @ t) = starts_with fence p" by (rule starts_with_append_long)
  moreover from assms(1,2) have "\<not> starts_with fence p" by (cases p) auto
  ultimately show ?thesis by simp
next
  case False
  show ?thesis
  proof
    assume a: "starts_with fence (p @ t)"
    from False assms(2) have i: "length p - 1 < length fence" by simp
    have "(p @ t) ! (length p - 1) = fence ! (length p - 1)" using a i by (rule starts_with_nth)
    then have "(p @ t) ! (length p - 1) = backtick" using i by (simp only: fence_nth)
    moreover have "(p @ t) ! (length p - 1) = last p"
      using assms(2) by (simp add: nth_append last_conv_nth)
    ultimately show False using assms(3) by simp
  qed
qed

lemma match_fence_needs_fence: "\<not> starts_with fence s \<Longrightarrow> match_fence s = None"
  by (simp add: match_fence_def)

lemma findall_skip_prefix:
  "\<not> contains_fence pre \<Longrightarrow> pre = [] \<or> last pre \<noteq> backtick
   \<Longrightarrow> findall_blocks (pre @ t) = findall_blocks t"
proof (induction pre)
  case Nil
  then show ?case by simp
next
  case (Cons c pre)
  from Cons.prems have nf: "\<not> contains_fence pre" by simp
  from Cons.prems have l: "pre = [] \<or> last pre \<noteq> backtick" by (cases pre) auto
  from Cons.prems have "last (c # pre) \<noteq> backtick" by simp
  with Cons.prems(1) have "\<not> starts_with fence ((c # pre) @ t)"
    by (intro no_fence_at_front) simp_all
  then have "match_fence (c # pre @ t) = None" using match_fence_needs_fence by simp
  with Cons.IH[OF nf l] show ?case by simp
qed

lemma findall_no_fence: "\<not> contains_fence s \<Longrightarrow> findall_blocks s = []"
proof (induction s)
  case Nil
  then show ?case by simp
next
  case (Cons c s)
  then have "match_fence (c # s) = None" by (intro match_fence_needs_fence) simp
  with Cons show ?case by simp
qed

lemma contains_fence_drop: "\<not> contains_fence s \<Longrightarrow> \<not> contains_fence (drop k s)"
proof (induction k arbitrary: s)
  case 0
  then show ?case by simp
next
  case (Suc k)
  then show ?case by (cases s) auto
qed

lemma ws_nl_body_no_fence: "\<not> contains_fence s \<Longrightarrow> ws_nl_body s = None"
proof (induction s)
  case Nil
  then show ?case by simp
next
  case (Cons c s)
  then have "ws_nl_body s = None" and "lazy_body s = None"
    by (simp_all add: lazy_body_None_iff)
  then show ?case by simp
qed

lemma fence_length: "length fence = 3"
  by (simp add: fence_def)

lemma lazy_body_append:
  assumes "\<not> contains_fence post" and "post = [] \<or> hd post \<noteq> backtick"
  shows "lazy_body (s @ post) = with_rest post (lazy_body s)"
proof (induction s)
  case Nil
  then show ?case using assms(1) by (simp add: lazy_body_None_iff)
next
  case (Cons c cs)
  have sw: "starts_with fence ((c # cs) @ post) = starts_with fence (c # cs)"
    using assms(2) by (rule starts_with_fence_append)
  show ?case
  proof (cases "starts_with fence (c # cs)")
    case True
    then have "length fence \<le> length (c # cs)" by (rule starts_with_length)
    then have "3 \<le> length (c # cs)" by (simp add: fence_def)
    with True sw show ?thesis by simp
  next
    case False
    with sw show ?thesis using Cons.IH by (auto split: option.splits)
  qed
qed

lemma ws_nl_body_append:
  assumes "\<not> contains_fence post" and "post = [] \<or> hd post \<noteq> backtick"
  shows "ws_nl_body (s @ post) = with_rest post (ws_nl_body s)"
proof (induction s)
  case Nil
  then show ?case using assms(1) by (simp add: ws_nl_body_no_fence)
next
  case (Cons c cs)
  then show ?case by (auto simp: lazy_body_append[OF assms] split: option.splits)
qed

lemma after_tag_append:
  assumes "\<not> contains_fence post" and "post = [] \<or> hd post \<noteq> backtick"
  shows "after_tag tag (s @ post) = with_rest post (after_tag tag s)"
proof (cases "length tag \<le> length s")
  case True
  then show ?thesis
    by (simp add: after_tag_def starts_with_append_long ws_nl_body_append[OF assms])
next
  case False
  then have n: "\<not> starts_with tag s" using starts_with_length by auto
  from False have "drop (length tag) (s @ post) = drop (length tag - length s) post" by simp
  moreover have "ws_nl_body (drop (length tag - length s) post) = None"
    using assms(1) by (intro ws_nl_body_no_fence contains_fence_drop)
  ultimately have "ws_nl_body (drop (length tag) (s @ post)) = None"
    by (simp only:)
  with n show ?thesis by (simp add: after_tag_def)
qed

lemma match_fence_append:
  assumes "\<not> contains_fence post" and "post = [] \<or> hd post \<noteq> backtick"
  shows "match_fence (s @ post) = with_rest post (match_fence s)"
proof (cases "starts_with fence s")
  case True
  then have sw: "starts_with fence (s @ post)"
    using starts_with_fence_append[OF assms(2)] by blast
  have "length fence \<le> length s" using True by (rule starts_with_length)
  then have "3 \<le> length s" by (simp add: fence_def)
  then have d: "drop 3 (s @ post) = drop 3 s @ post" by simp
  show ?thesis
    unfolding match_fence_def Let_def d
    by (simp add: True sw after_tag_append[OF assms] ws_nl_body_append[OF assms]
             split: option.splits)
next
  case False
  then have "\<not> starts_with fence (s @ post)"
    using starts_with_fence_append[OF assms(2)] by blast
  with False show ?thesis by (simp add: match_fence_def)
qed

lemma findall_append_suffix:
  assumes "\<not> contains_fence post" and "post = [] \<or> hd post \<noteq> backtick"
  shows "findall_blocks (s @ post) = findall_blocks s"
proof (induction s rule: findall_blocks.induct)
  case 1
  then show ?case using assms(1) by (simp add: findall_no_fence)
next
  case (2 c cs)
  have m: "match_fence (c # cs @ post) = with_rest post (match_fence (c # cs))"
    using match_fence_append[OF assms, of "c # cs"] by simp
  show ?case
  proof (cases "match_fence (c # cs)")
    case None
    with m have "match_fence (c # cs @ post) = None" by simp
    with None "2.IH"(1) show ?thesis by simp
  next
    case (Some br)
    then obtain b r where br: "match_fence (c # cs) = Some (b, r)" by (cases br) auto
    with m have "match_fence (c # cs @ post) = Some (b, r @ post)" by simp
    with br "2.IH"(2)[OF br refl] show ?thesis by simp
  qed
qed

text \<open>Where an extracted block lies in the text.\<close>

lemma lazy_body_decomp:
  "lazy_body s = Some (b, r) \<Longrightarrow> s = b @ fence @ r \<and> \<not> contains_fence b"
proof (induction s arbitrary: b r)
  case Nil
  then show ?case by simp
next
  case (Cons c cs)
  show ?case
  proof (cases "starts_with fence (c # cs)")
    case True
    with Cons.prems have b: "b = []" and r: "r = drop 3 (c # cs)" by simp_all
    have len: "drop 3 (c # cs) = drop (length fence) (c # cs)" by (simp only: fence_length)
    from True have "c # cs = fence @ drop (length fence) (c # cs)" by (rule starts_with_split)
    then have "c # cs = fence @ r" unfolding r len .
    with b show ?thesis by simp
  next
    case False
    with Cons.prems obtain b' where l: "lazy_body cs = Some (b', r)" and b: "b = c # b'"
      by (auto split: option.splits)
    from Cons.IH[OF l] have cs: "cs = b' @ fence @ r" and nf: "\<not> contains_fence b'" by simp_all
    have "\<not> starts_with fence (c # b')"
    proof
      assume a: "starts_with fence (c # b')"
      then have "length fence \<le> length (c # b')" by (rule starts_with_length)
      then have "starts_with fence ((c # b') @ fence @ r) = starts_with fence (c # b')"
        by (rule starts_with_append_long)
      with a cs False show False by simp
    qed
    with nf b cs show ?thesis by simp
  qed
qed

lemma ws_nl_body_decomp:
  "ws_nl_body s = Some (b, r) \<Longrightarrow>
   \<exists>ws. s = ws @ newline # b @ fence @ r \<and> list_all is_space ws \<and> \<not> contains_fence b"
proof (induction s arbitrary: b r)
  case Nil
  then show ?case by simp
next
  case (Cons c cs)
  show ?case
  proof (cases "is_space c \<and> ws_nl_body cs \<noteq> None")
    case True
    with Cons.prems have "ws_nl_body cs = Some (b, r)" by auto
    from Cons.IH[OF this] obtain ws where
      "cs = ws @ newline # b @ fence @ r" "list_all is_space ws" "\<not> contains_fence b"
      by blast
    with True have "c # cs = (c # ws) @ newline # b @ fence @ r \<and> list_all is_space (c # ws)
                    \<and> \<not> contains_fence b"
      by simp
    then show ?thesis by blast
  next
    case False
    with Cons.prems have c: "c = newline" and l: "lazy_body cs = Some (b, r)"
      by (auto split: if_splits option.splits)
    from lazy_body_decomp[OF l] c
    have "c # cs = [] @ newline # b @ fence @ r \<and> list_all is_space [] \<and> \<not> contains_fence b"
      by simp
    then show ?thesis by blast
  qed
qed

lemma is_opener_intro:
  assumes "tag \<in> set [''cpp'', ''c++'', []]" and "list_all is_space ws"
  shows "is_opener (tag @ ws @ [newline])"
proof -
  have nl: "is_space newline" by (simp add: is_space_def)
  have 1: "starts_with tag (tag @ ws @ [newline])" by (simp add: starts_with_def)
  have 2: "drop (length tag) (tag @ ws @ [newline]) = ws @ [newline]" by simp
  have 3: "list_all is_space (ws @ [newline])" using assms(2) nl by simp
  have 4: "last (tag @ ws @ [newline]) = newline" by simp
  have 5: "ws @ [newline] \<noteq> []" by simp
  show ?thesis
    unfolding is_opener_def
  proof (rule bexI)
    show "starts_with tag (tag @ ws @ [newline])
          \<and> drop (length tag) (tag @ ws @ [newline]) \<noteq> []
          \<and> last (tag @ ws @ [newline]) = newline
          \<and> list_all is_space (drop (length tag) (tag @ ws @ [newline]))"
      unfolding 2 using 1 5 4 3 by (intro conjI)
    show "tag \<in> set [''cpp'', ''c++'', []]" by (rule assms(1))
  qed
qed

lemma after_tag_decomp:
  assumes "after_tag tag s = Some (b, r)" and "tag \<in> set [''cpp'', ''c++'', []]"
  shows "\<exists>opener. s = opener @ b @ fence @ r \<and> is_opener opener \<and> \<not> contains_fence b"
proof -
  from assms(1) have sw: "starts_with tag s" and w: "ws_nl_body (drop (length tag) s) = Some (b, r)"
    by (auto simp: after_tag_def split: if_splits)
  from ws_nl_body_decomp[OF w] obtain ws where
    d: "drop (length tag) s = ws @ newline # b @ fence @ r" and ws: "list_all is_space ws"
    and nf: "\<not> contains_fence b"
    by blast
  from sw have "s = tag @ drop (length tag) s" by (rule starts_with_split)
  with d have "s = (tag @ ws @ [newline]) @ b @ fence @ r" by simp
  moreover have "is_opener (tag @ ws @ [newline])" using assms(2) ws by (rule is_opener_intro)
  ultimately show ?thesis using nf by blast
qed

lemma after_empty_tag: "after_tag [] s = ws_nl_body s"
  by (simp add: after_tag_def starts_with_def)

lemma match_fence_decomp:
  assumes "match_fence s = Some (b, r)"
  shows "\<exists>opener. s = fence @ opener @ b @ fence @ r \<and> is_opener opener \<and> \<not> contains_fence b"
proof -
  from assms have sw: "starts_with fence s"
    by (auto simp: match_fence_def split: if_splits)
  have len: "drop 3 s = drop (length fence) s" by (simp only: fence_length)
  from sw have "s = fence @ drop (length fence) s" by (rule starts_with_split)
  then have s: "s = fence @ drop 3 s" unfolding len .
  let ?r = "drop 3 s"
  from assms sw have "after_tag ''cpp'' ?r = Some (b, r) \<or> after_tag ''c++'' ?r = Some (b, r)
                      \<or> after_tag [] ?r = Some (b, r)"
    by (auto simp: match_fence_def Let_def after_empty_tag split: option.splits)
  then obtain tag where t: "tag \<in> set [''cpp'', ''c++'', []]" and a: "after_tag tag ?r = Some (b, r)"
    by auto
  from after_tag_decomp[OF a t] obtain opener where
    "?r = opener @ b @ fence @ r" "is_opener opener" "\<not> contains_fence b"
    by blast
  with s have "s = fence @ opener @ b @ fence @ r \<and> is_opener opener \<and> \<not> contains_fence b"
    by simp
  then show ?thesis by blast
qed

lemma findall_decomp:
  "b \<in> set (findall_blocks text) \<Longrightarrow>
   \<not> contains_fence b \<and>
   (\<exists>x opener y. text = x @ fence @ opener @ b @ fence @ y \<and> is_opener opener)"
proof (induction "text" rule: findall_blocks.induct)
  case 1
  then show ?case by simp
next
  case (2 c cs)
  show ?case
  proof (cases "match_fence (c # cs)")
    case None
    with "2.prems" have "b \<in> set (findall_blocks cs)" by simp
    from "2.IH"(1)[OF None this] obtain x opener y where
      nf: "\<not> contains_fence b" and cs: "cs = x @ fence @ opener @ b @ fence @ y"
      and o: "is_opener opener"
      by blast
    from cs have "c # cs = (c # x) @ fence @ opener @ b @ fence @ y" by simp
    with nf o show ?thesis by blast
  next
    case (Some br)
    then obtain b0 r where m: "match_fence (c # cs) = Some (b0, r)" by (cases br) auto
    from match_fence_decomp[OF m] obtain o0 where
      s: "c # cs = fence @ o0 @ b0 @ fence @ r" and o0: "is_opener o0"
      and nf0: "\<not> contains_fence b0"
      by blast
    from m "2.prems" have "b = b0 \<or> b \<in> set (findall_blocks r)" by auto
    then show ?thesis
    proof
      assume "b = b0"
      with s have "c # cs = [] @ fence @ o0 @ b @ fence @ r" by simp
      with nf0 o0 \<open>b = b0\<close> show ?thesis by blast
    next
      assume "b \<in> set (findall_blocks r)"
      from "2.IH"(2)[OF m refl this] obtain x opener y where
        nf: "\<not> contains_fence b" and r: "r = x @ fence @ opener @ b @ fence @ y"
        and o: "is_opener opener"
        by blast
      from s r have "c # cs = (fence @ o0 @ b0 @ fence @ x) @ fence @ opener @ b @ fence @ y"
        by simp
      with nf o show ?thesis by blast
    qed
  qed
qed

subsection \<open>Where the entries and the diagnostics come from\<close>

lemma set_update_subset: "set (AList.update k v al) \<subseteq> insert (k, v) (set al)"
  by (induction al) auto

lemma set_foldl_update:
  "set (foldl (\<lambda>al e. AList.update (fst e) (snd e) al) al es) \<subseteq> set al \<union> set es"
proof (induction es arbitrary: al)
  case Nil
  then show ?case by simp
next
  case (Cons e es)
  have "set (foldl (\<lambda>al e. AList.update (fst e) (snd e) al) (AList.update (fst e) (snd e) al) es)
        \<subseteq> set (AList.update (fst e) (snd e) al) \<union> set es"
    by (rule Cons.IH)
  also have "\<dots> \<subseteq> insert (fst e, snd e) (set al) \<union> set es"
    using set_update_subset[of "fst e" "snd e" al] by blast
  finally show ?case by auto
qed

lemma examined_line_origin:
  "l \<in> set (examined_lines text) \<Longrightarrow> \<exists>b \<in> set (findall_blocks text). l \<in> set (block_lines b)"
  by (auto simp: examined_lines_def)

lemma entry_origin:
  assumes "e \<in> set (fst (extract_snippets_from_response text))"
  shows "\<exists>b \<in> set (findall_blocks text). \<exists>l \<in> set (block_lines b). entry_of l = Some e"
proof -
  from assms have "e \<in> set (entries text)"
    using set_foldl_update[of "[]" "entries text"] by (auto simp: extract_as_fold)
  then obtain l where "l \<in> set (examined_lines text)" "entry_of l = Some e"
    by (auto simp: entries_def List.map_filter_def)
  with examined_line_origin[of l "text"] show ?thesis by blast
qed

lemma diag_origin:
  assumes "d \<in> set (snd (extract_snippets_from_response text))"
  shows "\<exists>b \<in> set (findall_blocks text). \<exists>l \<in> set (block_lines b).
           match_line l = None \<and> d = Skipping l"
proof -
  from assms obtain l where "l \<in> set (examined_lines text)" "match_line l = None" "d = Skipping l"
    by (auto simp: extract_as_fold)
  with examined_line_origin[of l "text"] show ?thesis by blast
qed

subsection \<open>The fenced blocks of a text and the blocks extracted\<close>

lemma starts_with_fence_hd: "starts_with fence (c # cs) \<Longrightarrow> c = backtick"
  by (simp add: starts_with_def fence_def)

lemma split_fences_nonempty: "split_fences s \<noteq> []"
  by (induction s rule: split_fences.induct) (auto split: list.splits)

lemma split_fences_lazy:
  "split_fences s = (case lazy_body s of
                       None \<Rightarrow> [s]
                     | Some (b, r) \<Rightarrow> b # split_fences r)"
proof (induction s rule: split_fences.induct)
  case 1
  then show ?case by simp
next
  case (2 c cs)
  show ?case
  proof (cases "starts_with fence (c # cs)")
    case True
    then show ?thesis by simp
  next
    case False
    with 2 show ?thesis
      using split_fences_nonempty[of cs]
      by (auto split: option.splits list.splits)
  qed
qed

lemma lazy_body_skip:
  "backtick \<notin> set p \<Longrightarrow>
   lazy_body (p @ u) = map_option (\<lambda>br. (p @ fst br, snd br)) (lazy_body u)"
proof (induction p)
  case Nil
  then show ?case by (simp add: option.map_ident)
next
  case (Cons c p)
  then have "c \<noteq> backtick" by auto
  then have "\<not> starts_with fence (c # p @ u)" using starts_with_fence_hd by blast
  with Cons show ?case by (auto split: option.splits)
qed

lemma space_not_backtick: "is_space c \<Longrightarrow> c \<noteq> backtick"
  by (auto simp: is_space_def)

lemma ws_consistent:
  "ws_nl_body u = Some (b, r') \<Longrightarrow> lazy_body u = Some (w, r) \<Longrightarrow>
   r' = r \<and> (\<exists>sp. w = sp @ b \<and> sp \<noteq> [] \<and> last sp = newline \<and> list_all is_space sp)"
proof (induction u arbitrary: w)
  case Nil
  then show ?case by simp
next
  case (Cons c cs)
  show ?case
  proof (cases "is_space c \<and> ws_nl_body cs = Some (b, r')")
    case True
    then have "\<not> starts_with fence (c # cs)"
      using starts_with_fence_hd space_not_backtick by blast
    with Cons.prems(2) obtain w' where l: "lazy_body cs = Some (w', r)" and w: "w = c # w'"
      by (auto split: option.splits)
    from True have "ws_nl_body cs = Some (b, r')" by simp
    from Cons.IH[OF this l] obtain sp where
      "r' = r" "w' = sp @ b" "sp \<noteq> []" "last sp = newline" "list_all is_space sp"
      by blast
    with w True have "w = (c # sp) @ b \<and> c # sp \<noteq> [] \<and> last (c # sp) = newline
                      \<and> list_all is_space (c # sp)"
      by simp
    with \<open>r' = r\<close> show ?thesis by blast
  next
    case False
    with Cons.prems(1) have c: "c = newline" and l: "lazy_body cs = Some (b, r')"
      by (auto split: if_splits option.splits)
    from c have "\<not> starts_with fence (c # cs)" using starts_with_fence_hd by fastforce
    with Cons.prems(2) l have "w = c # b" "r = r'" by auto
    moreover have "is_space newline" by (simp add: is_space_def)
    ultimately have "w = [c] @ b \<and> [c] \<noteq> [] \<and> last [c] = newline \<and> list_all is_space [c]"
      using c by simp
    with \<open>r = r'\<close> show ?thesis by blast
  qed
qed

lemma tag_no_backtick: "tag \<in> set [''cpp'', ''c++'', []] \<Longrightarrow> backtick \<notin> set tag"
  by auto

lemma is_opener_tag_space:
  assumes "tag \<in> set [''cpp'', ''c++'', []]" and "sp \<noteq> []" and "last sp = newline"
    and "list_all is_space sp"
  shows "is_opener (tag @ sp)"
proof -
  from assms(2,3) have sp: "sp = butlast sp @ [newline]"
    using append_butlast_last_id[of sp] by simp
  from assms(4) have "list_all is_space (butlast sp)"
    by (simp add: list_all_iff in_set_butlastD)
  with assms(1) have "is_opener (tag @ butlast sp @ [newline])" by (rule is_opener_intro)
  with sp show ?thesis by simp
qed

lemma after_tag_consistent:
  assumes "after_tag tag r1 = Some (b, r')" and "lazy_body r1 = Some (i, r2)"
    and "tag \<in> set [''cpp'', ''c++'', []]"
  shows "r' = r2 \<and> (\<exists>opener. is_opener opener \<and> i = opener @ b)"
proof -
  from assms(1) have sw: "starts_with tag r1"
    and w: "ws_nl_body (drop (length tag) r1) = Some (b, r')"
    by (auto simp: after_tag_def split: if_splits)
  from sw have r1: "r1 = tag @ drop (length tag) r1" by (rule starts_with_split)
  have "lazy_body (tag @ drop (length tag) r1)
        = map_option (\<lambda>br. (tag @ fst br, snd br)) (lazy_body (drop (length tag) r1))"
    using tag_no_backtick[OF assms(3)] by (rule lazy_body_skip)
  with r1 assms(2) have
    "map_option (\<lambda>br. (tag @ fst br, snd br)) (lazy_body (drop (length tag) r1)) = Some (i, r2)"
    by simp
  then obtain w' where l: "lazy_body (drop (length tag) r1) = Some (w', r2)" and i: "i = tag @ w'"
    by auto
  from ws_consistent[OF w l] obtain sp where
    r: "r' = r2" and sp: "w' = sp @ b" "sp \<noteq> []" "last sp = newline" "list_all is_space sp"
    by blast
  from assms(3) sp(2,3,4) have "is_opener (tag @ sp)" by (rule is_opener_tag_space)
  moreover from i sp(1) have "i = (tag @ sp) @ b" by simp
  ultimately show ?thesis using r by blast
qed

lemma drop_fence: "drop 3 (fence @ r) = r"
  by (simp add: fence_def)

lemma starts_with_fence_self: "starts_with fence (fence @ r)"
  by (simp add: starts_with_def)

lemma match_fence_at:
  "match_fence (fence @ r1) =
     (case after_tag ''cpp'' r1 of
        Some m \<Rightarrow> Some m
      | None \<Rightarrow> (case after_tag ''c++'' r1 of
                    Some m \<Rightarrow> Some m
                  | None \<Rightarrow> ws_nl_body r1))"
  by (simp only: match_fence_def starts_with_fence_self drop_fence Let_def if_True)

lemma match_fence_cases:
  "match_fence (fence @ r1) = Some m \<Longrightarrow>
   after_tag ''cpp'' r1 = Some m \<or> after_tag ''c++'' r1 = Some m \<or> after_tag [] r1 = Some m"
  unfolding match_fence_at after_empty_tag by (auto split: option.splits)

lemma match_fence_consistent:
  assumes "match_fence (fence @ r1) = Some (b, r')" and "lazy_body r1 = Some (i, r2)"
  shows "r' = r2 \<and> (\<exists>opener. is_opener opener \<and> i = opener @ b)"
proof -
  from match_fence_cases[OF assms(1)] obtain tag where
    "tag \<in> set [''cpp'', ''c++'', []]" and "after_tag tag r1 = Some (b, r')"
    by auto
  then show ?thesis using assms(2) after_tag_consistent by blast
qed

lemma ws_succeeds:
  "lazy_body u = Some (sp @ rest, r) \<Longrightarrow> list_all is_space sp \<Longrightarrow> newline \<in> set sp
   \<Longrightarrow> ws_nl_body u \<noteq> None"
proof (induction sp arbitrary: u)
  case Nil
  then show ?case by simp
next
  case (Cons c sp)
  from Cons.prems(2) have sc: "is_space c" and ssp: "list_all is_space sp" by simp_all
  from Cons.prems(1) obtain cs where u: "u = c # cs" and l: "lazy_body cs = Some (sp @ rest, r)"
    by (cases u) (auto split: if_splits option.splits)
  show ?case
  proof (cases "newline \<in> set sp")
    case True
    from Cons.IH[OF l ssp True] have "ws_nl_body cs \<noteq> None" .
    with u sc show ?thesis by auto
  next
    case False
    with Cons.prems(3) have "c = newline" by simp
    with u l show ?thesis by (auto split: option.splits)
  qed
qed

lemma after_tag_succeeds:
  assumes "lazy_body r1 = Some (i, r2)" and "is_opener (take n i)"
  shows "\<exists>tag \<in> set [''cpp'', ''c++'', []]. after_tag tag r1 \<noteq> None"
proof -
  from assms(2) obtain tag where tag: "tag \<in> set [''cpp'', ''c++'', []]"
    and sw: "starts_with tag (take n i)"
    and ne: "drop (length tag) (take n i) \<noteq> []"
    and la: "last (take n i) = newline"
    and sp: "list_all is_space (drop (length tag) (take n i))"
    unfolding is_opener_def by blast
  define sp where "sp = drop (length tag) (take n i)"
  from sw have o: "take n i = tag @ sp" unfolding sp_def by (rule starts_with_split)
  from ne have spne: "sp \<noteq> []" by (simp add: sp_def)
  with la o have "last sp = newline" by simp
  with spne have nl: "newline \<in> set sp" using last_in_set by fastforce
  have i: "i = tag @ sp @ drop n i" using o append_take_drop_id[of n i] by simp
  from lazy_body_decomp[OF assms(1)] have r1: "r1 = i @ fence @ r2" by simp
  with i have r1': "r1 = tag @ (sp @ drop n i @ fence @ r2)" by simp
  then have swr: "starts_with tag r1" and dr: "drop (length tag) r1 = sp @ drop n i @ fence @ r2"
    by (simp_all add: starts_with_def)
  have "lazy_body (tag @ drop (length tag) r1)
        = map_option (\<lambda>br. (tag @ fst br, snd br)) (lazy_body (drop (length tag) r1))"
    using tag_no_backtick[OF tag] by (rule lazy_body_skip)
  moreover have "tag @ drop (length tag) r1 = r1" using r1' dr by simp
  ultimately have
    "map_option (\<lambda>br. (tag @ fst br, snd br)) (lazy_body (drop (length tag) r1)) = Some (i, r2)"
    using assms(1) by simp
  then obtain w' where l: "lazy_body (drop (length tag) r1) = Some (w', r2)" and iw: "i = tag @ w'"
    by auto
  from iw i have "w' = sp @ drop n i" by simp
  with l have "lazy_body (drop (length tag) r1) = Some (sp @ drop n i, r2)" by simp
  from ws_succeeds[OF this] sp nl have "ws_nl_body (drop (length tag) r1) \<noteq> None"
    by (simp add: sp_def)
  with swr have "after_tag tag r1 \<noteq> None" by (simp add: after_tag_def)
  with tag show ?thesis by blast
qed

lemma match_fence_succeeds:
  assumes "lazy_body r1 = Some (i, r2)" and "opens_block i"
  shows "match_fence (fence @ r1) \<noteq> None"
proof -
  from assms(2) obtain n where "is_opener (take n i)" unfolding opens_block_def by blast
  from after_tag_succeeds[OF assms(1) this]
  have "after_tag ''cpp'' r1 \<noteq> None \<or> after_tag ''c++'' r1 \<noteq> None \<or> ws_nl_body r1 \<noteq> None"
    by (auto simp: after_empty_tag)
  then show ?thesis unfolding match_fence_at by (auto split: option.splits)
qed

lemma findall_to_first_fence:
  "lazy_body s = Some (p, r) \<Longrightarrow> findall_blocks s = findall_blocks (fence @ r)"
proof (induction s arbitrary: p)
  case Nil
  then show ?case by simp
next
  case (Cons c cs)
  show ?case
  proof (cases "starts_with fence (c # cs)")
    case True
    with Cons.prems have r: "r = drop 3 (c # cs)" by simp
    from True have "c # cs = fence @ drop (length fence) (c # cs)" by (rule starts_with_split)
    with r show ?thesis by (simp only: fence_length)
  next
    case False
    then have "match_fence (c # cs) = None" by (rule match_fence_needs_fence)
    moreover from False Cons.prems obtain p' where "lazy_body cs = Some (p', r)"
      by (auto split: option.splits)
    ultimately show ?thesis using Cons.IH by simp
  qed
qed

lemma match_fence_needs_closing: "\<not> contains_fence (drop 3 s) \<Longrightarrow> match_fence s = None"
proof (rule ccontr)
  assume nf: "\<not> contains_fence (drop 3 s)" and "match_fence s \<noteq> None"
  then obtain b r where "match_fence s = Some (b, r)" by auto
  from match_fence_decomp[OF this] obtain opener where
    s: "s = fence @ opener @ b @ fence @ r" by blast
  have "drop 3 (fence @ opener @ b @ fence @ r) = opener @ b @ fence @ r" by (rule drop_fence)
  with s have d: "drop 3 s = (opener @ b) @ fence @ r" by simp
  have "contains_fence (x @ fence @ r)" for x
    by (induction x) (simp_all add: fence_def starts_with_def)
  then have "contains_fence ((opener @ b) @ fence @ r)" .
  with d nf show False by simp
qed

lemma findall_unclosed: "\<not> contains_fence (drop 3 s) \<Longrightarrow> findall_blocks s = []"
proof (induction s)
  case Nil
  then show ?case by simp
next
  case (Cons c cs)
  from Cons.prems have m: "match_fence (c # cs) = None" by (rule match_fence_needs_closing)
  from Cons.prems have "\<not> contains_fence (drop 1 (drop 3 (c # cs)))" by (rule contains_fence_drop)
  moreover have "drop 1 (drop 3 (c # cs)) = drop 3 cs" by (simp add: numeral_eq_Suc)
  ultimately have "findall_blocks cs = []" using Cons.IH by simp
  with m show ?case by simp
qed

lemma findall_at_fence:
  assumes "match_fence (fence @ r1) = Some (b, r)"
  shows "findall_blocks (fence @ r1) = b # findall_blocks r"
proof -
  have "fence @ r1 = backtick # ([backtick, backtick] @ r1)" by (simp add: fence_def)
  then obtain cs where f: "fence @ r1 = backtick # cs" by blast
  with assms show ?thesis by simp
qed

lemma fenced_blocks_cases:
  "fenced_blocks text =
     (case lazy_body text of
        None \<Rightarrow> []
      | Some (p, r1) \<Rightarrow> (case lazy_body r1 of
                            None \<Rightarrow> []
                          | Some (i, r2) \<Rightarrow> i # fenced_blocks r2))"
proof (cases "lazy_body text")
  case None
  then show ?thesis by (simp add: fenced_blocks_def split_fences_lazy[of "text"])
next
  case (Some pr)
  obtain p r1 where pr: "pr = (p, r1)" by (cases pr)
  show ?thesis
  proof (cases "lazy_body r1")
    case None
    with Some pr show ?thesis
      by (simp add: fenced_blocks_def split_fences_lazy[of "text"] split_fences_lazy[of r1])
  next
    case (Some ir)
    obtain i r2 where ir: "ir = (i, r2)" by (cases ir)
    obtain s ss where ss: "split_fences r2 = s # ss"
      using split_fences_nonempty[of r2] by (cases "split_fences r2") auto
    from \<open>lazy_body text = Some pr\<close> pr Some ir ss show ?thesis
      by (simp add: fenced_blocks_def split_fences_lazy[of "text"] split_fences_lazy[of r1])
  qed
qed

lemma blocks_are_fenced_blocks:
  "(\<forall>s \<in> set (fenced_blocks text). opens_block s) \<Longrightarrow>
   list_all2 (\<lambda>b s. \<exists>opener. is_opener opener \<and> s = opener @ b)
     (findall_blocks text) (fenced_blocks text)"
proof (induction "text" rule: length_induct)
  case (1 t)
  show ?case
  proof (cases "lazy_body t")
    case None
    then have "findall_blocks t = []" by (simp add: findall_no_fence lazy_body_None_iff)
    with None show ?thesis by (simp add: fenced_blocks_cases[of t])
  next
    case (Some pr)
    obtain p r1 where pr: "pr = (p, r1)" by (cases pr)
    with Some have lt: "lazy_body t = Some (p, r1)" by simp
    from findall_to_first_fence[OF lt] have f: "findall_blocks t = findall_blocks (fence @ r1)" .
    from lazy_body_decomp[OF lt] have t: "t = p @ fence @ r1" by simp
    show ?thesis
    proof (cases "lazy_body r1")
      case None
      then have "\<not> contains_fence r1" by (simp add: lazy_body_None_iff)
      then have "\<not> contains_fence (drop 3 (fence @ r1))" unfolding drop_fence .
      then have "findall_blocks (fence @ r1) = []" by (rule findall_unclosed)
      with f lt None show ?thesis by (simp add: fenced_blocks_cases[of t])
    next
      case (Some ir)
      obtain i r2 where ir: "ir = (i, r2)" by (cases ir)
      with Some have lr: "lazy_body r1 = Some (i, r2)" by simp
      from lt lr have fb: "fenced_blocks t = i # fenced_blocks r2"
        by (simp add: fenced_blocks_cases[of t])
      with "1.prems" have oi: "opens_block i" and rest: "\<forall>s \<in> set (fenced_blocks r2). opens_block s"
        by simp_all
      from match_fence_succeeds[OF lr oi] obtain b r' where
        m: "match_fence (fence @ r1) = Some (b, r')" by auto
      from match_fence_consistent[OF m lr] obtain opener where
        r': "r' = r2" and op: "is_opener opener" "i = opener @ b" by blast
      from findall_at_fence[OF m] f r' have fa: "findall_blocks t = b # findall_blocks r2" by simp
      from lazy_body_decomp[OF lr] have "r1 = i @ fence @ r2" by simp
      with t have "length r2 < length t" by (simp add: fence_length)
      with "1.IH" rest have
        "list_all2 (\<lambda>b s. \<exists>opener. is_opener opener \<and> s = opener @ b)
           (findall_blocks r2) (fenced_blocks r2)"
        by blast
      with fa fb op show ?thesis by auto
    qed
  qed
qed

subsection \<open>Worked examples of the snippet extractor\<close>

lemma example_two_lines:
  "extract_snippets_from_response
     (fence @ ''cpp'' @ [newline] @ ''1: int x = 1;'' @ [newline] @ ''2: // done'' @ [newline] @ fence)
   = ([(''1'', '' int x = 1;''), (''2'', '' // done'')], [])"
  by code_simp

lemma example_backslash:
  "extract_snippets_from_response
     (fence @ [newline] @ ''12a: foo(); '' @ [backslash, newline] @ fence)
   = ([(''12a'', '' foo(); '' @ [backslash])], [])"
  by code_simp

lemma example_duplicate:
  "extract_snippets_from_response
     (fence @ [newline] @ ''1: a'' @ [newline] @ ''2: b'' @ [newline] @ fence
      @ '' then '' @ fence @ ''cpp'' @ [newline] @ ''1: c'' @ [newline] @ fence)
   = ([(''1'', '' c''), (''2'', '' b'')], [])"
  by code_simp

lemma example_skipped:
  "examined_lines (fence @ [newline] @ ''int x;'' @ [newline] @ '' 7: y'' @ [newline] @ fence)
     = [''int x;'', '' 7: y'']"
  "match_line ''int x;'' = None"
  "match_line '' 7: y'' = None"
  by code_simp+

lemma example_prose_block:
  "findall_blocks (fence @ ''cpp'' @ [newline] @ ''2: int y;'' @ [newline] @ ''int w;'' @ [newline] @ fence)
     = [''2: int y;'' @ [newline] @ ''int w;'' @ [newline]]"
  "fenced_blocks (fence @ ''cpp'' @ [newline] @ ''2: int y;'' @ [newline] @ ''int w;'' @ [newline] @ fence)
     = [''cpp'' @ [newline] @ ''2: int y;'' @ [newline] @ ''int w;'' @ [newline]]"
  "extract_snippets_from_response
      (fence @ ''cpp'' @ [newline] @ ''2: int y;'' @ [newline] @ ''int w;'' @ [newline] @ fence)
     = ([(''2'', '' int y;'')], [Skipping ''int w;''])"
  "opens_block (''cpp'' @ [newline] @ ''2: int y;'' @ [newline] @ ''int w;'' @ [newline])"
  by code_simp+

lemma example_prose_around:
  "\<not> contains_fence (''Use '' @ [backtick] @ ''x'' @ [backtick] @ '' so:'' @ [newline]
                      @ ''1: int x;'' @ [newline])"
  "\<not> contains_fence ([newline] @ ''3: int z; // '' @ [backtick] @ ''z'' @ [backtick])"
  by code_simp+

section \<open>Lemmas about the lines of a block\<close>

lemma linebreak_is_space: "is_linebreak c \<Longrightarrow> is_space c"
  by (auto simp: is_linebreak_def is_space_def)

lemma cr_is_linebreak: "is_linebreak (CHR 0x0D)"
  by (simp add: is_linebreak_def)

lemma splitlines_plain:
  "\<not> is_linebreak c \<Longrightarrow>
   splitlines (c # cs) = (case splitlines cs of [] \<Rightarrow> [[c]] | l # ls \<Rightarrow> (c # l) # ls)"
  using cr_is_linebreak by auto

lemma splitlines_break:
  "is_linebreak c \<Longrightarrow> \<not> (c = CHR 0x0D \<and> cs \<noteq> [] \<and> hd cs = newline) \<Longrightarrow>
   splitlines (c # cs) = [] # splitlines cs"
  by auto

lemma splitlines_crlf:
  "c = CHR 0x0D \<Longrightarrow> cs \<noteq> [] \<Longrightarrow> hd cs = newline \<Longrightarrow> splitlines (c # cs) = splitlines cs"
  by simp

lemma splitlines_nonempty: "s \<noteq> [] \<Longrightarrow> splitlines s \<noteq> []"
proof (induction s)
  case Nil
  then show ?case by simp
next
  case (Cons c cs)
  show ?case
  proof (cases "c = CHR 0x0D \<and> cs \<noteq> [] \<and> hd cs = newline")
    case True
    with Cons.IH show ?thesis by simp
  next
    case False
    then show ?thesis by (auto split: list.splits)
  qed
qed

lemma is_blank_simps [simp]:
  "is_blank []" "is_blank (c # l) = (is_space c \<and> is_blank l)"
  by (simp_all add: is_blank_def)

lemma is_blank_set: "is_blank l = (\<forall>x \<in> set l. is_space x)"
  by (simp add: is_blank_def list_all_iff)

lemma rstrip_Cons: "\<not> is_blank l \<Longrightarrow> rstrip (c # l) = c # rstrip l"
proof -
  assume "\<not> is_blank l"
  then obtain x where "x \<in> set (rev l)" "\<not> is_space x" by (auto simp: is_blank_set)
  then have "dropWhile is_space (rev l @ [c]) = dropWhile is_space (rev l) @ [c]"
    by (rule dropWhile_append1)
  then show ?thesis by (simp add: rstrip_def)
qed

lemma rstrip_blank_tail: "is_blank l \<Longrightarrow> \<not> is_space c \<Longrightarrow> rstrip (c # l) = [c]"
proof -
  assume b: "is_blank l" and c: "\<not> is_space c"
  from b have "\<And>x. x \<in> set (rev l) \<Longrightarrow> is_space x" by (simp add: is_blank_set)
  then have "dropWhile is_space (rev l @ [c]) = dropWhile is_space [c]"
    by (rule dropWhile_append2)
  with c show ?thesis by (simp add: rstrip_def)
qed

lemma rstrip_is_blank: "is_blank (rstrip l) = is_blank l"
proof (cases "is_blank l")
  case True
  have "set (rstrip l) \<subseteq> set l" by (auto simp: rstrip_def dest: set_dropWhileD)
  with True show ?thesis by (auto simp: is_blank_set)
next
  case False
  let ?d = "dropWhile is_space (rev l)"
  from False have ne: "?d \<noteq> []" by (auto simp: is_blank_set dropWhile_eq_Nil_conv)
  then have "\<not> is_space (hd ?d)" by (rule hd_dropWhile)
  moreover have "hd ?d \<in> set (rstrip l)" using ne by (simp add: rstrip_def)
  ultimately have "\<not> is_blank (rstrip l)" by (auto simp: is_blank_set)
  with False show ?thesis by simp
qed

lemma lstrip_space: "is_space w \<Longrightarrow> lstrip (w # l) = lstrip l"
  by (simp add: lstrip_def)

lemma lstrip_no_space: "\<not> is_space c \<Longrightarrow> lstrip (c # l) = c # l"
  by (simp add: lstrip_def)

lemma splitlines_of_blank: "is_blank ws \<Longrightarrow> list_all is_blank (splitlines ws)"
proof (induction ws)
  case Nil
  then show ?case by simp
next
  case (Cons w ws)
  then have IH: "list_all is_blank (splitlines ws)" and w: "is_space w" by simp_all
  show ?case
  proof (cases "is_linebreak w")
    case True
    then show ?thesis using IH by auto
  next
    case False
    show ?thesis unfolding splitlines_plain[OF False] using IH w by (auto split: list.splits)
  qed
qed

lemma drop_trailing_blank_all: "list_all is_blank ls \<Longrightarrow> drop_trailing_blank ls = []"
  by (induction ls) simp_all

lemma on_last_Cons: "ls \<noteq> [] \<Longrightarrow> on_last f (l # ls) = l # on_last f ls"
  by (cases ls) simp_all

lemma on_last_Nil_iff: "on_last f ls = [] \<longleftrightarrow> ls = []"
  by (induction f ls rule: on_last.induct) simp_all

text \<open>Leading whitespace in front of a text that starts with no whitespace.\<close>

lemma splitlines_leading:
  assumes "s = [] \<or> \<not> is_space (hd s)"
  shows "is_blank ws \<Longrightarrow>
         on_first lstrip (dropWhile is_blank (splitlines (ws @ s))) = splitlines s"
proof (induction ws)
  case Nil
  show ?case
  proof (cases s)
    case Nil
    then show ?thesis by simp
  next
    case (Cons c cs)
    with assms have c: "\<not> is_space c" by simp
    then have "\<not> is_linebreak c" using linebreak_is_space by blast
    then have sp: "splitlines (c # cs)
                   = (case splitlines cs of [] \<Rightarrow> [[c]] | l # ls \<Rightarrow> (c # l) # ls)"
      by (rule splitlines_plain)
    show ?thesis
      unfolding Cons append_Nil sp using c
      by (simp add: lstrip_no_space split: list.splits)
  qed
next
  case (Cons w ws)
  then have w: "is_space w" and b: "is_blank ws" by simp_all
  let ?X = "splitlines (ws @ s)"
  have IH: "on_first lstrip (dropWhile is_blank ?X) = splitlines s" using Cons.IH b by simp
  show ?case
  proof (cases "w = CHR 0x0D \<and> ws @ s \<noteq> [] \<and> hd (ws @ s) = newline")
    case True
    then have "splitlines (w # ws @ s) = ?X" by simp
    with IH show ?thesis by simp
  next
    case nocrlf: False
    show ?thesis
    proof (cases "is_linebreak w")
      case True
      then have "splitlines (w # ws @ s) = [] # ?X" using nocrlf by (rule splitlines_break)
      with IH show ?thesis by simp
    next
      case False
      then have sp: "splitlines (w # ws @ s)
                     = (case ?X of [] \<Rightarrow> [[w]] | l # ls \<Rightarrow> (w # l) # ls)"
        by (rule splitlines_plain)
      show ?thesis
      proof (cases ?X)
        case Nil
        with sp IH w show ?thesis by simp
      next
        case (Cons l ls)
        with sp have e: "splitlines (w # ws @ s) = (w # l) # ls" by simp
        show ?thesis
        proof (cases "is_blank l")
          case True
          with e w Cons IH show ?thesis by simp
        next
          case False
          with e w Cons IH show ?thesis by (simp add: lstrip_space)
        qed
      qed
    qed
  qed
qed

text \<open>Trailing whitespace behind a text that ends with no whitespace.\<close>

lemma splitlines_trailing:
  assumes ws: "is_blank ws"
  shows "s = [] \<or> \<not> is_space (last s) \<Longrightarrow>
         on_last rstrip (drop_trailing_blank (splitlines (s @ ws))) = splitlines s"
proof (induction s)
  case Nil
  have "drop_trailing_blank (splitlines ws) = []"
    using ws by (intro drop_trailing_blank_all splitlines_of_blank)
  then show ?case by simp
next
  case (Cons c s)
  show ?case
  proof (cases "s = []")
    case True
    with Cons.prems have c: "\<not> is_space c" by simp
    then have nb: "\<not> is_linebreak c" using linebreak_is_space by blast
    have all: "list_all is_blank (splitlines ws)" using ws by (rule splitlines_of_blank)
    have 1: "splitlines (c # ws) = (case splitlines ws of [] \<Rightarrow> [[c]] | l # ls \<Rightarrow> (c # l) # ls)"
      using nb by (rule splitlines_plain)
    have 2: "splitlines [c] = [[c]]" using splitlines_plain[OF nb, of "[]"] by simp
    show ?thesis
    proof (cases "splitlines ws")
      case Nil
      with c True show ?thesis
        by (simp add: 1 2 rstrip_blank_tail del: splitlines.simps(2))
    next
      case (Cons l ls)
      with all have l: "is_blank l" and ls: "drop_trailing_blank ls = []"
        by (simp_all add: drop_trailing_blank_all)
      with c True Cons show ?thesis
        by (simp add: 1 2 rstrip_blank_tail del: splitlines.simps(2))
    qed
  next
    case False
    with Cons.prems have "\<not> is_space (last s)" by simp
    with Cons.IH have IH: "on_last rstrip (drop_trailing_blank (splitlines (s @ ws))) = splitlines s"
      by simp
    let ?X = "splitlines (s @ ws)" and ?Y = "splitlines s"
    have Y: "?Y \<noteq> []" using False by (rule splitlines_nonempty)
    with IH have D: "drop_trailing_blank ?X \<noteq> []" by (auto simp: on_last_Nil_iff)
    have hd: "hd (s @ ws) = hd s" and ne: "s @ ws \<noteq> []" using False by simp_all
    show ?thesis
    proof (cases "c = CHR 0x0D \<and> hd s = newline")
      case True
      then have 1: "splitlines (c # s @ ws) = ?X" and 2: "splitlines (c # s) = ?Y"
        using False hd by simp_all
      with IH show ?thesis by (simp del: splitlines.simps(2))
    next
      case nocrlf: False
      show ?thesis
      proof (cases "is_linebreak c")
        case True
        have 1: "splitlines (c # s @ ws) = [] # ?X"
          using True nocrlf hd by (intro splitlines_break) auto
        have 2: "splitlines (c # s) = [] # ?Y"
          using True nocrlf by (intro splitlines_break) auto
        show ?thesis using D IH by (simp add: 1 2 on_last_Cons del: splitlines.simps(2))
      next
        case False
        from D obtain l ls where X: "?X = l # ls" by (cases ?X) auto
        from Y obtain l' ls' where Y': "?Y = l' # ls'" by (cases ?Y) auto
        have 1: "splitlines (c # s @ ws) = (c # l) # ls"
          unfolding splitlines_plain[OF False] X by simp
        have 2: "splitlines (c # s) = (c # l') # ls'"
          unfolding splitlines_plain[OF False] Y' by simp
        let ?R = "drop_trailing_blank ls"
        from D X have n: "\<not> (?R = [] \<and> is_blank l)" and DX: "drop_trailing_blank ?X = l # ?R"
          by (auto split: if_splits)
        then have DC: "drop_trailing_blank ((c # l) # ls) = (c # l) # ?R" by auto
        show ?thesis
        proof (cases "?R = []")
          case True
          with n have nb: "\<not> is_blank l" by simp
          from IH DX True Y' have "rstrip l = l'" "ls' = []" by simp_all
          with True nb show ?thesis by (simp add: 1 2 DC rstrip_Cons del: splitlines.simps(2))
        next
          case False
          with IH DX Y' have "l = l'" "on_last rstrip ?R = ls'" by (simp_all add: on_last_Cons)
          with False show ?thesis by (simp add: 1 2 DC on_last_Cons del: splitlines.simps(2))
        qed
      qed
    qed
  qed
qed

lemma dropWhile_on_last:
  "dropWhile is_blank (on_last rstrip ls) = on_last rstrip (dropWhile is_blank ls)"
  by (induction rstrip ls rule: on_last.induct) (simp_all add: rstrip_is_blank)

lemma strip_decomp:
  obtains ws1 ws2 where "block = ws1 @ strip block @ ws2" "is_blank ws1" "is_blank ws2"
    "strip block = [] \<or> (\<not> is_space (hd (strip block)) \<and> \<not> is_space (last (strip block)))"
proof -
  let ?r = "lstrip block"
  let ?ws1 = "takeWhile is_space block" and ?ws2 = "rev (takeWhile is_space (rev ?r))"
  have b: "block = ?ws1 @ ?r" by (simp add: lstrip_def)
  have "rev ?r = takeWhile is_space (rev ?r) @ dropWhile is_space (rev ?r)" by simp
  then have "rev (rev ?r) = rev (dropWhile is_space (rev ?r)) @ ?ws2"
    by (metis rev_append)
  then have r: "?r = strip block @ ?ws2" by (simp add: strip_def rstrip_def)
  have w1: "is_blank ?ws1" by (auto simp: is_blank_set dest: set_takeWhileD)
  have w2: "is_blank ?ws2" by (auto simp: is_blank_set dest: set_takeWhileD)
  have e: "strip block = [] \<or> (\<not> is_space (hd (strip block)) \<and> \<not> is_space (last (strip block)))"
  proof (cases "strip block = []")
    case True
    then show ?thesis by simp
  next
    case False
    then have d: "dropWhile is_space (rev ?r) \<noteq> []" by (simp add: strip_def rstrip_def)
    then have "\<not> is_space (hd (dropWhile is_space (rev ?r)))" by (rule hd_dropWhile)
    then have l: "\<not> is_space (last (strip block))"
      using d by (simp add: strip_def rstrip_def last_rev)
    from False r have "?r \<noteq> []" by auto
    then have "\<not> is_space (hd ?r)" unfolding lstrip_def by (rule hd_dropWhile)
    moreover have "hd ?r = hd (strip block)" using False r by (metis hd_append2)
    ultimately show ?thesis using l by simp
  qed
  from b r have "block = ?ws1 @ strip block @ ?ws2" by simp
  with w1 w2 e show ?thesis using that by blast
qed

section \<open>Lemmas about the line-numbering tools\<close>




















section \<open>Lemmas about the violation extractor\<close>









lemma example_sheet_b:
  "extract_violations_for_file (Inr example_sheet) ''b.cpp''
   = ([\<lparr>File = Str ''b.cpp'', Path = Str ''src/b.cpp'', Line = None,
        Warning = Str ''see note'', Level = Str ''Info'',
        Misra = Str ''Rule 8.4''\<rparr>], [])"
  by code_simp


lemma filter_zip_none:
  "(\<And>x. x \<in> set xs \<Longrightarrow> \<not> P x) \<Longrightarrow> filter (\<lambda>rp. P (fst rp)) (zip xs ys) = []"
  by (auto simp: filter_empty_conv dest: set_zip_leftD)

lemma violations_body_no_match:
  assumes "\<And>row. row \<in> set (rows df) \<Longrightarrow> cell_of df row ''File'' \<noteq> Some (Str target)"
  shows "violations_body (Inr df) target = Inr [] \<or> (\<exists>e. violations_body (Inr df) target = Inl e)"
proof -
  have "filter (\<lambda>rp. cell_of df (fst rp) ''File'' = Some (Str target)) (zip (rows df) parsed) = []"
    for parsed :: "(int option \<times> cell) list"
    using assms by (rule filter_zip_none[where P = "\<lambda>row. cell_of df row ''File'' = Some (Str target)"])
  then show ?thesis
    by (auto simp: violations_body_def Let_def split: sum.splits)
qed



section \<open>Properties of the snippet extractor\<close>

subsection \<open>C1: the code value of a conforming line\<close>

text \<open>
  Claim C1, as amended. For every line without a line feed that matches the line
  pattern, the line is the label, the colon and the code text, and the value stored
  under the label is the whole code text after the colon with its trailing whitespace
  removed: no separator space is consumed, so a space that follows the colon stays at
  the front of the value.
\<close>

theorem C1_value_is_text_after_colon:
  assumes "match_line line = Some (lab, code)" and "newline \<notin> set line"
  shows "line = lab @ '':'' @ code
       \<and> process_line st line = (AList.update lab (rstrip code) (fst st), snd st)"
  using match_line_whole[OF assms] process_line_match[OF assms(1)] by simp

text \<open>
  The theorem at the line \<open>1: int x = 1;\<close> followed by two spaces: the value keeps the
  space after the colon and loses the two trailing spaces.
\<close>

theorem C1_value_is_text_after_colon_witness:
  "match_line ''1: int x = 1;  '' = Some (''1'', '' int x = 1;  '')
   \<and> newline \<notin> set ''1: int x = 1;  ''
   \<and> process_line ([], []) ''1: int x = 1;  '' = ([(''1'', '' int x = 1;'')], [])"
proof -
  have 1: "match_line ''1: int x = 1;  '' = Some (''1'', '' int x = 1;  '')" by code_simp
  have 2: "newline \<notin> set ''1: int x = 1;  ''" by simp
  have 3: "rstrip '' int x = 1;  '' = '' int x = 1;''" by code_simp
  from C1_value_is_text_after_colon[OF 1 2, of "([], [])"] 1 2 3 show ?thesis by simp
qed

text \<open>
  Claim C1 as stated fails: for the fenced block with the lines \<open>1: int x = 1;\<close> and
  \<open>2: // done\<close> the function returns the values with their leading space, and the
  value under \<open>1\<close> is not \<open>int x = 1;\<close>.
\<close>

theorem C1_separator_space_counterexample:
  "extract_snippets_from_response
     (fence @ ''cpp'' @ [newline] @ ''1: int x = 1;'' @ [newline] @ ''2: // done'' @ [newline] @ fence)
   = ([(''1'', '' int x = 1;''), (''2'', '' // done'')], [])
   \<and> map_of (fst (extract_snippets_from_response
         (fence @ ''cpp'' @ [newline] @ ''1: int x = 1;'' @ [newline] @ ''2: // done'' @ [newline] @ fence)))
       ''1'' \<noteq> Some ''int x = 1;''"
  unfolding example_two_lines by simp


subsection \<open>C2: a later occurrence of a label overwrites an earlier one\<close>

text \<open>
  Claim C2. For every response text and every label, the dictionary that
  \<open>extract_snippets_from_response\<close> returns binds the label to the value of the last
  entry written under it, over all conforming lines of all fenced blocks in the order of
  the input, and binds no value when no conforming line carries the label. The function
  has no error result. For the label \<open>1\<close> in two blocks the value of the second block
  is returned.
\<close>

theorem C2_last_write_wins:
  "map_of (fst (extract_snippets_from_response text)) lab = latest lab (entries text)
   \<and> extract_snippets_from_response
        (fence @ [newline] @ ''1: a'' @ [newline] @ ''2: b'' @ [newline] @ fence
         @ '' then '' @ fence @ ''cpp'' @ [newline] @ ''1: c'' @ [newline] @ fence)
      = ([(''1'', '' c''), (''2'', '' b'')], [])"
proof (intro conjI)
  show "map_of (fst (extract_snippets_from_response text)) lab = latest lab (entries text)"
    by (simp add: extract_as_fold map_of_foldl_update map_of_rev_latest)
qed (rule example_duplicate)


subsection \<open>C3: the lines of a block\<close>

text \<open>
  Claim C3, as amended. For every extracted block, the lines the snippet extractor
  attempts to match are obtained by removing all leading and trailing whitespace from the
  block as a whole and then splitting at the line boundaries. They are the lines that
  splitting the block and dropping the blank lines at both ends gives, except that the
  first of them has lost its leading whitespace (its indentation) and the last of them
  its trailing whitespace; every other line, and every other character of the first and
  the last line, is unchanged.
\<close>

theorem C3_lines_of_stripped_block:
  "block_lines block = on_first lstrip (on_last rstrip (spec_block_lines block))"
proof -
  obtain ws1 ws2 where b: "block = ws1 @ strip block @ ws2"
    and w1: "is_blank ws1" and w2: "is_blank ws2"
    and e: "strip block = [] \<or> (\<not> is_space (hd (strip block)) \<and> \<not> is_space (last (strip block)))"
    by (rule strip_decomp)
  let ?c = "strip block"
  show ?thesis
  proof (cases "?c = []")
    case True
    with b have "block = ws1 @ ws2" by simp
    then have "is_blank block" using w1 w2 by (auto simp: is_blank_set)
    then have "drop_trailing_blank (splitlines block) = []"
      by (intro drop_trailing_blank_all splitlines_of_blank)
    with True show ?thesis by (simp add: block_lines_def spec_block_lines_def)
  next
    case False
    with e have "\<not> is_space (last (ws1 @ ?c))" by simp
    then have t: "on_last rstrip (drop_trailing_blank (splitlines ((ws1 @ ?c) @ ws2)))
                  = splitlines (ws1 @ ?c)"
      using w2 by (intro splitlines_trailing) simp_all
    have l: "on_first lstrip (dropWhile is_blank (splitlines (ws1 @ ?c))) = splitlines ?c"
      using w1 e False by (intro splitlines_leading) auto
    have "splitlines block = splitlines ((ws1 @ ?c) @ ws2)" using b by simp
    then have "on_first lstrip (on_last rstrip (spec_block_lines block))
               = on_first lstrip (dropWhile is_blank (on_last rstrip
                   (drop_trailing_blank (splitlines ((ws1 @ ?c) @ ws2)))))"
      by (simp only: spec_block_lines_def dropWhile_on_last)
    also have "\<dots> = splitlines ?c" by (simp only: t l)
    finally show ?thesis by (simp add: block_lines_def)
  qed
qed

text \<open>
  Claim C3 as stated fails: for the block made of the line \<open>1: x\<close> with two spaces in
  front and two behind, the line that is matched is \<open>1: x\<close> without its indentation. With
  the indentation the line would not match the pattern and would be skipped; the
  function stores it under the label \<open>1\<close>. The lines are also cut at every boundary
  that \<open>str.splitlines\<close> knows, a form feed for one.
\<close>

theorem C3_indentation_counterexample:
  "spec_block_lines (''  1: x  '' @ [newline]) = [''  1: x  '']
   \<and> block_lines (''  1: x  '' @ [newline]) = [''1: x'']
   \<and> block_lines (''  1: x  '' @ [newline]) \<noteq> spec_block_lines (''  1: x  '' @ [newline])
   \<and> match_line ''  1: x  '' = None
   \<and> extract_snippets_from_response (fence @ [newline] @ ''  1: x  '' @ [newline] @ fence)
       = ([(''1'', '' x'')], [])
   \<and> block_lines (''1: a'' @ [CHR 0x0C] @ ''2: b'') = [''1: a'', ''2: b'']"
  by code_simp

subsection \<open>C4: no fenced block, no conforming line, skipped lines\<close>

text \<open>
  Claim C4. The function is total and has no error result. A response without a fenced
  block yields the empty dictionary and no diagnostic; a response none of whose block
  lines conforms yields the empty dictionary; the diagnostics written to the error
  channel are exactly the block lines that do not match, in order, and they are no part
  of the returned dictionary, whose keys are exactly the labels of the matching lines.
\<close>

theorem C4_never_raises:
  "(findall_blocks text = [] \<longrightarrow> extract_snippets_from_response text = ([], []))
   \<and> ((\<forall>l \<in> set (examined_lines text). match_line l = None)
        \<longrightarrow> fst (extract_snippets_from_response text) = [])
   \<and> snd (extract_snippets_from_response text)
       = map Skipping (filter (\<lambda>l. match_line l = None) (examined_lines text))
   \<and> fst ` set (fst (extract_snippets_from_response text)) = fst ` set (entries text)"
proof (intro conjI impI)
  assume "findall_blocks text = []"
  then show "extract_snippets_from_response text = ([], [])"
    by (simp add: extract_snippets_from_response_def)
next
  assume a: "\<forall>l \<in> set (examined_lines text). match_line l = None"
  then have "List.map_filter entry_of (examined_lines text) = []"
    by (auto simp: List.map_filter_def entry_of_def filter_empty_conv)
  then show "fst (extract_snippets_from_response text) = []"
    by (simp add: extract_as_fold entries_def)
next
  show "snd (extract_snippets_from_response text)
       = map Skipping (filter (\<lambda>l. match_line l = None) (examined_lines text))"
    by (simp add: extract_as_fold)
next
  show "fst ` set (fst (extract_snippets_from_response text)) = fst ` set (entries text)"
    by (simp add: extract_as_fold keys_foldl_update)
qed

text \<open>
  The theorem at a response without a fenced block, and at a response whose block holds
  two lines that do not match.
\<close>

theorem C4_never_raises_witness:
  "findall_blocks ''1: int x = 1;'' = []
   \<and> extract_snippets_from_response ''1: int x = 1;'' = ([], [])
   \<and> extract_snippets_from_response
         (fence @ [newline] @ ''int x;'' @ [newline] @ '' 7: y'' @ [newline] @ fence)
       = ([], [Skipping ''int x;'', Skipping '' 7: y''])"
proof -
  let ?t = "fence @ [newline] @ ''int x;'' @ [newline] @ '' 7: y'' @ [newline] @ fence"
  have 1: "findall_blocks ''1: int x = 1;'' = []" by code_simp
  have 2: "\<forall>l \<in> set (examined_lines ?t). match_line l = None"
    unfolding example_skipped(1) by (simp add: example_skipped(2,3))
  from C4_never_raises[of "''1: int x = 1;''"] 1
  have a: "extract_snippets_from_response ''1: int x = 1;'' = ([], [])" by blast
  from C4_never_raises[of ?t] 2
  have "fst (extract_snippets_from_response ?t) = []"
    and "snd (extract_snippets_from_response ?t)
         = map Skipping (filter (\<lambda>l. match_line l = None) (examined_lines ?t))"
    by blast+
  then have b: "extract_snippets_from_response ?t = ([], [Skipping ''int x;'', Skipping '' 7: y''])"
    unfolding example_skipped(1) by (simp add: example_skipped(2,3) prod_eq_iff)
  from 1 a b show ?thesis by blast
qed


subsection \<open>C5: a code part that ends in a backslash\<close>

text \<open>
  Claim C5. For every conforming line, made of a label, a colon and a code part without
  a line feed that ends in a backslash, the value stored under the label is the code
  part itself, character by character: the backslashes and the whitespace inside it,
  the space before the final backslash included, are kept. For the block line made of
  \<open>12a: foo();\<close>, a space and a backslash, the function returns under the label \<open>12a\<close>
  the value made of a space, \<open>foo();\<close>, a space and the backslash.
\<close>

theorem C5_backslash_preserved:
  assumes "is_label lab" and "code \<noteq> []" and "last code = backslash"
    and "newline \<notin> set code"
  shows "process_line st (lab @ '':'' @ code) = (AList.update lab code (fst st), snd st)
       \<and> extract_snippets_from_response
            (fence @ [newline] @ ''12a: foo(); '' @ [backslash, newline] @ fence)
          = ([(''12a'', '' foo(); '' @ [backslash])], [])"
proof -
  have m: "match_line (lab @ '':'' @ code) = Some (lab, code)"
    using assms(1,4) by (rule match_line_conforming)
  have "\<not> is_space (last code)" using assms(3) by (simp add: is_space_def)
  with assms(2) have "rstrip code = code" by (rule rstrip_last_not_space)
  with process_line_match[OF m, of st] example_backslash show ?thesis by simp
qed

text \<open>The theorem at the line made of \<open>12a: foo();\<close>, a space and a backslash.\<close>

theorem C5_backslash_preserved_witness:
  "is_label ''12a'' \<and> last ('' foo(); '' @ [backslash]) = backslash
   \<and> process_line ([], []) (''12a: foo(); '' @ [backslash])
       = ([(''12a'', '' foo(); '' @ [backslash])], [])"
proof -
  have 1: "is_label ''12a''" by code_simp
  have 2: "'' foo(); '' @ [backslash] \<noteq> []" by simp
  have 3: "last ('' foo(); '' @ [backslash]) = backslash" by simp
  have 4: "newline \<notin> set ('' foo(); '' @ [backslash])" by simp
  from C5_backslash_preserved[OF 1 2 3 4, of "([], [])"] 1 3 show ?thesis by simp
qed


subsection \<open>C10: text outside the fenced blocks\<close>

text \<open>
  Claim C10, as amended. For every text, only lines inside extracted blocks are
  examined: every entry of the dictionary and every diagnostic comes from a line of a
  block the fence pattern extracted, and every extracted block holds no fence and stands
  in the text between a fence followed by an opener and the next fence. When every
  fenced block of the text opens the way the pattern expects (the tag \<open>cpp\<close>, the tag
  \<open>c++\<close> or no tag, then whitespace up to a line feed), the extracted blocks are the
  fenced blocks, in order, each without its opener, so that text outside every fenced
  block is not examined. And text without a fence in front of a text and behind it,
  inline code included, changes neither the dictionary nor the diagnostics, whatever
  its lines look like, as long as no backtick of it touches the text.
\<close>

theorem C10_only_extracted_blocks_examined:
  "(\<forall>e \<in> set (fst (extract_snippets_from_response text)).
      \<exists>b \<in> set (findall_blocks text). \<exists>l \<in> set (block_lines b). entry_of l = Some e)
   \<and> (\<forall>d \<in> set (snd (extract_snippets_from_response text)).
      \<exists>b \<in> set (findall_blocks text). \<exists>l \<in> set (block_lines b).
        match_line l = None \<and> d = Skipping l)
   \<and> (\<forall>b \<in> set (findall_blocks text).
        \<not> contains_fence b
        \<and> (\<exists>x opener y. text = x @ fence @ opener @ b @ fence @ y \<and> is_opener opener))
   \<and> ((\<forall>s \<in> set (fenced_blocks text). opens_block s)
        \<longrightarrow> list_all2 (\<lambda>b s. \<exists>opener. is_opener opener \<and> s = opener @ b)
              (findall_blocks text) (fenced_blocks text))
   \<and> (\<not> contains_fence pre \<and> (pre = [] \<or> last pre \<noteq> backtick)
       \<and> \<not> contains_fence post \<and> (post = [] \<or> hd post \<noteq> backtick)
        \<longrightarrow> extract_snippets_from_response (pre @ text @ post)
            = extract_snippets_from_response text)"
proof (intro conjI ballI impI)
  fix e
  assume "e \<in> set (fst (extract_snippets_from_response text))"
  then show "\<exists>b \<in> set (findall_blocks text). \<exists>l \<in> set (block_lines b). entry_of l = Some e"
    by (rule entry_origin)
next
  fix d
  assume "d \<in> set (snd (extract_snippets_from_response text))"
  then show "\<exists>b \<in> set (findall_blocks text). \<exists>l \<in> set (block_lines b).
               match_line l = None \<and> d = Skipping l"
    by (rule diag_origin)
next
  fix b
  assume b: "b \<in> set (findall_blocks text)"
  from findall_decomp[OF b] show "\<not> contains_fence b" by (rule conjunct1)
  from findall_decomp[OF b]
  show "\<exists>x opener y. text = x @ fence @ opener @ b @ fence @ y \<and> is_opener opener"
    by (rule conjunct2)
next
  assume "\<forall>s \<in> set (fenced_blocks text). opens_block s"
  then show "list_all2 (\<lambda>b s. \<exists>opener. is_opener opener \<and> s = opener @ b)
               (findall_blocks text) (fenced_blocks text)"
    by (rule blocks_are_fenced_blocks)
next
  assume a: "\<not> contains_fence pre \<and> (pre = [] \<or> last pre \<noteq> backtick)
             \<and> \<not> contains_fence post \<and> (post = [] \<or> hd post \<noteq> backtick)"
  then have "findall_blocks (pre @ text @ post) = findall_blocks (text @ post)"
    by (intro findall_skip_prefix) simp_all
  also from a have "\<dots> = findall_blocks text"
    by (intro findall_append_suffix) simp_all
  finally show "extract_snippets_from_response (pre @ text @ post)
                = extract_snippets_from_response text"
    by (simp only: extract_snippets_from_response_def)
qed

text \<open>
  The theorem at a response with one block tagged \<open>cpp\<close> that holds the lines
  \<open>2: int y;\<close> and \<open>int w;\<close>, between prose with inline code and a line \<open>1: int x;\<close> in
  front and a line \<open>3: int z;\<close> with inline code behind: the result is that of the
  block alone, its entry and its diagnostic come from the two lines of the block, and
  the extracted block is the fenced block without the opener \<open>cpp\<close> and line feed.
\<close>

theorem C10_only_extracted_blocks_examined_witness:
  "extract_snippets_from_response
      ((''Use '' @ [backtick] @ ''x'' @ [backtick] @ '' so:'' @ [newline] @ ''1: int x;'' @ [newline])
       @ (fence @ ''cpp'' @ [newline] @ ''2: int y;'' @ [newline] @ ''int w;'' @ [newline] @ fence)
       @ ([newline] @ ''3: int z; // '' @ [backtick] @ ''z'' @ [backtick]))
     = ([(''2'', '' int y;'')], [Skipping ''int w;''])
   \<and> (\<exists>l \<in> set (block_lines (''2: int y;'' @ [newline] @ ''int w;'' @ [newline])).
        entry_of l = Some (''2'', '' int y;''))
   \<and> (\<exists>l \<in> set (block_lines (''2: int y;'' @ [newline] @ ''int w;'' @ [newline])).
        match_line l = None \<and> Skipping ''int w;'' = Skipping l)
   \<and> \<not> contains_fence (''2: int y;'' @ [newline] @ ''int w;'' @ [newline])
   \<and> (\<exists>x opener y.
        fence @ ''cpp'' @ [newline] @ ''2: int y;'' @ [newline] @ ''int w;'' @ [newline] @ fence
          = x @ fence @ opener @ (''2: int y;'' @ [newline] @ ''int w;'' @ [newline]) @ fence @ y
        \<and> is_opener opener)
   \<and> (\<exists>opener. is_opener opener
        \<and> ''cpp'' @ [newline] @ ''2: int y;'' @ [newline] @ ''int w;'' @ [newline]
          = opener @ ''2: int y;'' @ [newline] @ ''int w;'' @ [newline])"
proof -
  let ?pre = "''Use '' @ [backtick] @ ''x'' @ [backtick] @ '' so:'' @ [newline]
              @ ''1: int x;'' @ [newline]"
  let ?resp = "fence @ ''cpp'' @ [newline] @ ''2: int y;'' @ [newline] @ ''int w;'' @ [newline] @ fence"
  let ?post = "[newline] @ ''3: int z; // '' @ [backtick] @ ''z'' @ [backtick]"
  let ?b = "''2: int y;'' @ [newline] @ ''int w;'' @ [newline]"
  note t = C10_only_extracted_blocks_examined[of ?resp ?pre ?post]
  have pre: "\<not> contains_fence ?pre \<and> (?pre = [] \<or> last ?pre \<noteq> backtick)
             \<and> \<not> contains_fence ?post \<and> (?post = [] \<or> hd ?post \<noteq> backtick)"
    using example_prose_around by simp
  with t have "extract_snippets_from_response (?pre @ ?resp @ ?post)
               = extract_snippets_from_response ?resp"
    by blast
  then have 1: "extract_snippets_from_response (?pre @ ?resp @ ?post)
                = ([(''2'', '' int y;'')], [Skipping ''int w;''])"
    by (simp only: example_prose_block(3))
  have e: "(''2'', '' int y;'') \<in> set (fst (extract_snippets_from_response ?resp))"
    unfolding example_prose_block(3) by simp
  with t have "\<exists>b \<in> set (findall_blocks ?resp). \<exists>l \<in> set (block_lines b).
                 entry_of l = Some (''2'', '' int y;'')"
    by blast
  then have 2: "\<exists>l \<in> set (block_lines ?b). entry_of l = Some (''2'', '' int y;'')"
    unfolding example_prose_block(1) by simp
  have d: "Skipping ''int w;'' \<in> set (snd (extract_snippets_from_response ?resp))"
    unfolding example_prose_block(3) by simp
  with t have "\<exists>b \<in> set (findall_blocks ?resp). \<exists>l \<in> set (block_lines b).
                 match_line l = None \<and> Skipping ''int w;'' = Skipping l"
    by blast
  then have 3: "\<exists>l \<in> set (block_lines ?b). match_line l = None \<and> Skipping ''int w;'' = Skipping l"
    unfolding example_prose_block(1) by simp
  have b: "?b \<in> set (findall_blocks ?resp)"
    unfolding example_prose_block(1) by simp
  with t have 4: "\<not> contains_fence ?b
      \<and> (\<exists>x opener y. ?resp = x @ fence @ opener @ ?b @ fence @ y \<and> is_opener opener)"
    by blast
  have o: "\<forall>s \<in> set (fenced_blocks ?resp). opens_block s"
    unfolding example_prose_block(2) using example_prose_block(4) by simp
  with t have "list_all2 (\<lambda>b s. \<exists>opener. is_opener opener \<and> s = opener @ b)
                 (findall_blocks ?resp) (fenced_blocks ?resp)"
    by blast
  then have 5: "\<exists>opener. is_opener opener \<and> ''cpp'' @ [newline] @ ?b = opener @ ?b"
    unfolding example_prose_block(1,2) by simp
  from 1 2 3 4 5 show ?thesis by blast
qed

text \<open>
  Claim C10 as stated fails where a fenced block carries another tag: the pattern takes
  the closing fence of the \<open>js\<close> block for an opening fence and the opening fence of the
  \<open>cpp\<close> block for the closing one. The fenced blocks of the response are the \<open>js\<close>
  block and the \<open>cpp\<close> block, the line \<open>1: x\<close> stands outside both, and it is the line
  that is stored; the line \<open>2: y\<close> of the \<open>cpp\<close> block is not.
\<close>

theorem C10_foreign_fence_counterexample:
  "fenced_blocks foreign_fence_response
     = [''js'' @ [newline] @ ''f();'' @ [newline], ''cpp'' @ [newline] @ ''2: y'' @ [newline]]
   \<and> outside_fences foreign_fence_response = [[], [newline] @ ''1: x'' @ [newline], []]
   \<and> ''1: x'' \<in> set (concat (map splitlines (outside_fences foreign_fence_response)))
   \<and> ''1: x'' \<notin> set (concat (map splitlines (fenced_blocks foreign_fence_response)))
   \<and> examined_lines foreign_fence_response = [''1: x'']
   \<and> extract_snippets_from_response foreign_fence_response = ([(''1'', '' x'')], [])"
  by code_simp


section \<open>Properties of the line-numbering tools\<close>

subsection \<open>C6: adding, stripping and adding again\<close>


subsection \<open>C7: the stripper and the number of lines\<close>

text \<open>
  Claim C7 fails on the code. The pattern of the stripper ends in \<open>\s?\<close>, which takes any
  whitespace character after the colon, the line feed included. For the file of the two
  lines \<open>12:\<close> and \<open>foo\<close> the first line is written as the empty text, without its line
  feed, and the output has one line where the input has two.
\<close>

theorem C7_line_feed_consumed:
  "file_lines (''12:'' @ [newline] @ ''foo'' @ [newline]) = [''12:'' @ [newline], ''foo'' @ [newline]]
   \<and> remove_line_numbers (''12:'' @ [newline] @ ''foo'' @ [newline]) = ''foo'' @ [newline]
   \<and> file_lines (remove_line_numbers (''12:'' @ [newline] @ ''foo'' @ [newline])) = [''foo'' @ [newline]]"
  by code_simp

section \<open>Properties of the violation extractor\<close>

subsection \<open>C8: the line number and the warning of a cell\<close>



subsection \<open>C9: no exception leaves the function\<close>

text \<open>
  Claim C9. The function is total and has no error result. Whenever the body of the
  \<open>try\<close> block raises, be it the reading of the file or a step of the parsing, the
  function returns the empty list and writes the exception to the error channel;
  otherwise it returns the list the body built and writes nothing. When no row of the
  sheet has the target file name, the list that is returned is empty.
\<close>

theorem C9_exceptions_become_empty_list:
  "(violations_body read_excel target = Inl e
      \<longrightarrow> extract_violations_for_file read_excel target = ([], [e]))
   \<and> (violations_body read_excel target = Inr vs
      \<longrightarrow> extract_violations_for_file read_excel target = (vs, []))
   \<and> ((\<forall>row \<in> set (rows df). cell_of df row ''File'' \<noteq> Some (Str target))
      \<longrightarrow> fst (extract_violations_for_file (Inr df) target) = [])
   \<and> extract_violations_for_file (Inl e) target = ([], [e])"
proof (intro conjI impI)
  assume "\<forall>row \<in> set (rows df). cell_of df row ''File'' \<noteq> Some (Str target)"
  then have "violations_body (Inr df) target = Inr []
             \<or> (\<exists>e. violations_body (Inr df) target = Inl e)"
    by (intro violations_body_no_match) blast
  then show "fst (extract_violations_for_file (Inr df) target) = []"
    by (auto simp: extract_violations_for_file_def)
qed (simp_all add: extract_violations_for_file_def violations_body_def)

text \<open>
  The theorem at a sheet without the \<open>Path\<close> column (a \<open>KeyError\<close>), at the example
  sheet with a file name that is present and one that is absent, and at a file that
  cannot be read.
\<close>

theorem C9_exceptions_become_empty_list_witness:
  "extract_violations_for_file (Inr sheet_without_path) ''a.cpp'' = ([], [KeyError ''Path''])
   \<and> extract_violations_for_file (Inr example_sheet) ''a.cpp''
       = ([\<lparr>File = Str ''a.cpp'', Path = Str ''src/a.cpp'', Line = Some 42,
            Warning = Str ''unused variable'', Level = Str ''Warning'',
            Misra = Str ''Rule 2.2''\<rparr>], [])
   \<and> fst (extract_violations_for_file (Inr example_sheet) ''c.cpp'') = []
   \<and> extract_violations_for_file (Inl (ReadError ''no such file'')) ''a.cpp''
       = ([], [ReadError ''no such file''])"
proof -
  have 1: "violations_body (Inr sheet_without_path) ''a.cpp'' = Inl (KeyError ''Path'')"
    by code_simp
  have 2: "violations_body (Inr example_sheet) ''a.cpp''
           = Inr [\<lparr>File = Str ''a.cpp'', Path = Str ''src/a.cpp'', Line = Some 42,
                  Warning = Str ''unused variable'', Level = Str ''Warning'',
                  Misra = Str ''Rule 2.2''\<rparr>]"
    by code_simp
  have 3: "\<forall>row \<in> set (rows example_sheet). cell_of example_sheet row ''File'' \<noteq> Some (Str ''c.cpp'')"
    by code_simp
  from C9_exceptions_become_empty_list[of "Inr sheet_without_path" "''a.cpp''" "KeyError ''Path''"] 1
  have a: "extract_violations_for_file (Inr sheet_without_path) ''a.cpp'' = ([], [KeyError ''Path''])"
    by blast
  from C9_exceptions_become_empty_list[of "Inr example_sheet" "''a.cpp''" _ _ example_sheet] 2
  have b: "extract_violations_for_file (Inr example_sheet) ''a.cpp''
       = ([\<lparr>File = Str ''a.cpp'', Path = Str ''src/a.cpp'', Line = Some 42,
            Warning = Str ''unused variable'', Level = Str ''Warning'',
            Misra = Str ''Rule 2.2''\<rparr>], [])"
    by blast
  from C9_exceptions_become_empty_list[of _ "''c.cpp''" _ _ example_sheet] 3
  have c: "fst (extract_violations_for_file (Inr example_sheet) ''c.cpp'') = []"
    by blast
  from C9_exceptions_become_empty_list[of _ "''a.cpp''" "ReadError ''no such file''"]
  have d: "extract_violations_for_file (Inl (ReadError ''no such file'')) ''a.cpp''
       = ([], [ReadError ''no such file''])"
    by blast
  from a b c d show ?thesis by blast
qed

end
